theory Spec2Isabelle
  imports Main
begin

section \<open>Errors\<close>

text \<open>
  Every \<^verbatim>\<open>raise\<close> of \<^verbatim>\<open>subplots.py\<close> is a value of this type. The source raises
  \<^verbatim>\<open>ValueError\<close> throughout (and \<^verbatim>\<open>AttributeError\<close> in \<^verbatim>\<open>axes_list\<close>); the
  constructors keep the raise sites apart:
  \<^item> \<open>InvalidArrangement\<close>: 'Axes numbers must span integers 1 to num_axes' (line 184);
  \<^item> \<open>InvalidPropertySpec ids\<close>: 'Have N axes, but ... only has properties for axes ids'
    (line 159), \<open>ids\<close> being the numbers the message prints;
  \<^item> \<open>OrderingViolation\<close>: 'shared x axes was not already drawn' (lines 340, 346);
  \<^item> \<open>InternalConsistencyError\<close>: 'belongs to multiple groups' (line 373);
  \<^item> \<open>NoMethod\<close>: the \<^verbatim>\<open>AttributeError\<close> of line 65, \<open>MixedMethods\<close> that of line 79;
  \<^item> \<open>IndexError\<close>, \<open>SliceStepZero\<close>, \<open>NotCallable\<close>: what Python's own indexing and
    call raise (\<^verbatim>\<open>IndexError\<close>, \<^verbatim>\<open>ValueError: slice step cannot be zero\<close>,
    \<^verbatim>\<open>TypeError\<close>).
\<close>

datatype error =
    InvalidArrangement
  | InvalidPropertySpec "int list"
  | OrderingViolation
  | InternalConsistencyError
  | NoMethod
  | MixedMethods
  | IndexError
  | SliceStepZero
  | NotCallable

section \<open>Grid normalizer (lines 163-186)\<close>

text \<open>
  A cell of the arrangement the caller passes is an integer or Python's \<^verbatim>\<open>None\<close>
  (\<open>None\<close> here). \<^verbatim>\<open>array\<close> is \<^verbatim>\<open>None\<close> (\<open>Auto\<close>), a 1-D sequence (\<open>Flat\<close>) or a
  rectangular 2-D sequence (\<open>Grid\<close>, a list of rows).
\<close>

type_synonym cell = "int option"

datatype arrangement = Auto | Flat "cell list" | Grid "cell list list"

text \<open>
  Lines 163-169. Without an array, \<^verbatim>\<open>np.arange(1, nrows*ncols+1)\<close> is reshaped to
  \<^verbatim>\<open>(nrows, ncols)\<close> in C order (row-major) or Fortran order; a 1-D array becomes one row
  (row-major) or one column.
\<close>

definition array_setup :: "arrangement \<Rightarrow> nat \<Rightarrow> nat \<Rightarrow> bool \<Rightarrow> cell list list" where
  "array_setup array nrows ncols rowmajor =
     (case array of
        Auto \<Rightarrow>
          map (\<lambda>r. map (\<lambda>c. Some (if rowmajor then int (r * ncols + c) + 1
                                       else int (c * nrows + r) + 1))
                        [0..<ncols]) [0..<nrows]
      | Flat xs \<Rightarrow> (if rowmajor then [xs] else map (\<lambda>x. [x]) xs)
      | Grid a \<Rightarrow> a)"

text \<open>Line 171: \<^verbatim>\<open>array[array==None] = 0\<close>.\<close>

definition none_to_zero :: "cell \<Rightarrow> int" where
  "none_to_zero c = (case c of None \<Rightarrow> 0 | Some v \<Rightarrow> v)"

definition fill_none :: "cell list list \<Rightarrow> int list list" where
  "fill_none a = map (map none_to_zero) a"

text \<open>
  Python's index into an axis of length \<open>n\<close>: \<open>-n \<le> i < n\<close>, a negative index counting
  from the end, anything else an \<^verbatim>\<open>IndexError\<close>.
\<close>

definition py_index :: "nat \<Rightarrow> int \<Rightarrow> error + nat" where
  "py_index n i =
     (if 0 \<le> i \<and> i < int n then Inr (nat i)
      else if - int n \<le> i \<and> i < 0 then Inr (nat (int n + i))
      else Inl IndexError)"

definition shape0 :: "'a list list \<Rightarrow> nat" where
  "shape0 a = length a"

definition shape1 :: "'a list list \<Rightarrow> nat" where
  "shape1 a = (case a of [] \<Rightarrow> 0 | row # _ \<Rightarrow> length row)"

text \<open>
  Lines 172-175: \<^verbatim>\<open>for col in emptycols.flat: array[:,col-1] = 0\<close> (skipped when the list
  is empty), and lines 176-179, the same for rows.
\<close>

fun zero_cols :: "int list \<Rightarrow> int list list \<Rightarrow> error + int list list" where
  "zero_cols [] a = Inr a"
| "zero_cols (col # cols) a =
     (case py_index (shape1 a) (col - 1) of
        Inl e \<Rightarrow> Inl e
      | Inr c \<Rightarrow> zero_cols cols (map (\<lambda>row. row[c := 0]) a))"

fun zero_rows :: "int list \<Rightarrow> int list list \<Rightarrow> error + int list list" where
  "zero_rows [] a = Inr a"
| "zero_rows (row # rows) a =
     (case py_index (shape0 a) (row - 1) of
        Inl e \<Rightarrow> Inl e
      | Inr r \<Rightarrow> zero_rows rows (a[r := map (\<lambda>_. 0) (a ! r)]))"

definition masked_array ::
  "arrangement \<Rightarrow> nat \<Rightarrow> nat \<Rightarrow> bool \<Rightarrow> int list \<Rightarrow> int list \<Rightarrow> error + int list list" where
  "masked_array array nrows ncols rowmajor emptycols emptyrows =
     (case zero_cols emptycols (fill_none (array_setup array nrows ncols rowmajor)) of
        Inl e \<Rightarrow> Inl e
      | Inr a \<Rightarrow> zero_rows emptyrows a)"

text \<open>\<^verbatim>\<open>np.unique\<close> of a flattened array: its distinct values in ascending order.\<close>

definition np_unique :: "int list \<Rightarrow> int list" where
  "np_unique xs = sort (remdups xs)"

text \<open>The values of \<^verbatim>\<open>array[array!=0]\<close>, and those of the positive cells.\<close>

definition nonzero_values :: "int list list \<Rightarrow> int list" where
  "nonzero_values a = filter (\<lambda>v. v \<noteq> 0) (concat a)"

definition positive_values :: "int list list \<Rightarrow> int list" where
  "positive_values a = filter (\<lambda>v. 0 < v) (concat a)"

text \<open>
  Lines 181-184: \<^verbatim>\<open>nums = np.unique(array[array!=0]); num_axes = len(nums)\<close>, and the
  rule \<^verbatim>\<open>tuple(nums.flat) == tuple(range(1, num_axes+1))\<close>. The result is \<^verbatim>\<open>num_axes\<close>.
\<close>

definition enforce_rule :: "int list list \<Rightarrow> error + nat" where
  "enforce_rule a =
     (let nums = np_unique (nonzero_values a);
          num_axes = length nums
      in if nums \<noteq> map int [1..<num_axes + 1] then Inl InvalidArrangement
         else Inr num_axes)"

text \<open>Lines 163-186 together: the canonical grid and the number of panels.\<close>

definition grid_normalizer ::
  "arrangement \<Rightarrow> nat \<Rightarrow> nat \<Rightarrow> bool \<Rightarrow> int list \<Rightarrow> int list \<Rightarrow> error + (int list list \<times> nat)" where
  "grid_normalizer array nrows ncols rowmajor emptycols emptyrows =
     (case masked_array array nrows ncols rowmajor emptycols emptyrows of
        Inl e \<Rightarrow> Inl e
      | Inr a \<Rightarrow> (case enforce_rule a of Inl e \<Rightarrow> Inl e | Inr n \<Rightarrow> Inr (a, n)))"

section \<open>Extent calculator (lines 266-268)\<close>

text \<open>
  \<^verbatim>\<open>np.where(array==i)\<close>: the (row, column) positions of the cells equal to \<open>i\<close>, in
  row-major order.
\<close>

definition np_where :: "int list list \<Rightarrow> int \<Rightarrow> (nat \<times> nat) list" where
  "np_where a i = [(r, c). r \<leftarrow> [0..<length a], c \<leftarrow> [0..<length (a ! r)], a ! r ! c = i]"

text \<open>
  Line 266: \<^verbatim>\<open>axes_ids = [np.where(array==i) for i in np.unique(array) if i>0]\<close>, one
  entry per positive value, in ascending order of the value.
\<close>

definition axes_ids :: "int list list \<Rightarrow> (nat \<times> nat) list list" where
  "axes_ids a = map (np_where a) (filter (\<lambda>i. 0 < i) (np_unique (concat a)))"

text \<open>
  An extent is a row of the \<^verbatim>\<open>yrange\<close> or \<^verbatim>\<open>xrange\<close> table: the pair
  \<^verbatim>\<open>[min, max+1]\<close> plus the offset. The offsets come from \<^verbatim>\<open>_gridspec_kwargs\<close>, which
  is not part of this file; they are parameters. \<^verbatim>\<open>.min()\<close> and \<^verbatim>\<open>.max()\<close> are taken
  of the index list of a value that occurs in the array, which is never empty
  (\<open>np_where_nonempty\<close> below).
\<close>

type_synonym extent = "nat \<times> nat"

definition yrange :: "int list list \<Rightarrow> nat \<Rightarrow> extent list" where
  "yrange a row_offset =
     map (\<lambda>xy. (row_offset + Min (set (map fst xy)), row_offset + (Max (set (map fst xy)) + 1)))
         (axes_ids a)"

definition xrange :: "int list list \<Rightarrow> nat \<Rightarrow> extent list" where
  "xrange a col_offset =
     map (\<lambda>xy. (col_offset + Min (set (map snd xy)), col_offset + (Max (set (map snd xy)) + 1)))
         (axes_ids a)"

text \<open>The cell \<open>(r, c)\<close> of the grid lies in the box of a row extent and a column extent.\<close>

definition in_box :: "nat \<Rightarrow> nat \<Rightarrow> extent \<Rightarrow> extent \<Rightarrow> nat \<times> nat \<Rightarrow> bool" where
  "in_box row_offset col_offset ye xe rc =
     (fst ye \<le> row_offset + fst rc \<and> row_offset + fst rc < snd ye \<and>
      fst xe \<le> col_offset + snd rc \<and> col_offset + snd rc < snd xe)"

text \<open>The positions of the grid, and the value at a position.\<close>

definition cells :: "int list list \<Rightarrow> (nat \<times> nat) list" where
  "cells a = [(r, c). r \<leftarrow> [0..<length a], c \<leftarrow> [0..<length (a ! r)]]"

definition cell_at :: "int list list \<Rightarrow> nat \<times> nat \<Rightarrow> int" where
  "cell_at a rc = a ! fst rc ! snd rc"

section \<open>Axis-sharing grouper (lines 276-299)\<close>

text \<open>
  The four lists of one axis: \<^verbatim>\<open>xgroups\<close>, \<^verbatim>\<open>xgroups_base\<close>, \<^verbatim>\<open>xgroups_sorted\<close> and
  \<^verbatim>\<open>grouped\<close> (or the \<^verbatim>\<open>y\<close> ones).
\<close>

record grouping =
  groups :: "nat list list"
  groups_base :: "nat list"
  groups_sorted :: "nat list list"
  grouped :: "nat list"

definition no_groups :: grouping where
  "no_groups = \<lparr>groups = [], groups_base = [], groups_sorted = [], grouped = []\<rparr>"

text \<open>
  \<^verbatim>\<open>np.where((rng[i,:]==rng).all(axis=1))[0]\<close>: the rows of the table equal to row \<open>i\<close>,
  in ascending order.
\<close>

definition matching_axes :: "extent list \<Rightarrow> nat \<Rightarrow> nat list" where
  "matching_axes rng i = filter (\<lambda>j. rng ! j = rng ! i) [0..<length rng]"

text \<open>
  \<^verbatim>\<open>np.argmax\<close> and \<^verbatim>\<open>np.argmin\<close> scan from the left and keep the first extreme value.
  Both raise on an empty array; the grouper calls them on groups of two or more.
\<close>

primrec argmax_scan :: "nat list \<Rightarrow> nat \<Rightarrow> nat \<Rightarrow> nat \<Rightarrow> nat" where
  "argmax_scan [] k best bestv = best"
| "argmax_scan (x # xs) k best bestv =
     (if bestv < x then argmax_scan xs (Suc k) k x else argmax_scan xs (Suc k) best bestv)"

definition np_argmax :: "nat list \<Rightarrow> nat" where
  "np_argmax xs = (case xs of [] \<Rightarrow> 0 | x # xs' \<Rightarrow> argmax_scan xs' 1 0 x)"

primrec argmin_scan :: "nat list \<Rightarrow> nat \<Rightarrow> nat \<Rightarrow> nat \<Rightarrow> nat" where
  "argmin_scan [] k best bestv = best"
| "argmin_scan (x # xs) k best bestv =
     (if x < bestv then argmin_scan xs (Suc k) k x else argmin_scan xs (Suc k) best bestv)"

definition np_argmin :: "nat list \<Rightarrow> nat" where
  "np_argmin xs = (case xs of [] \<Rightarrow> 0 | x # xs' \<Rightarrow> argmin_scan xs' 1 0 x)"

text \<open>
  \<^verbatim>\<open>np.argsort\<close>: the positions of the array in ascending order of their values. NumPy
  does not fix the order of positions with equal values for its default sort; here they
  keep their order (an insertion sort, which is what NumPy runs on short arrays). The
  theorems below use only that the result is a permutation in ascending order of value.
\<close>

definition np_argsort :: "nat list \<Rightarrow> nat list" where
  "np_argsort xs = map fst (sort_key snd (enumerate 0 xs))"

text \<open>Lines 279-289, the body of the loop over \<open>i\<close> for the x axis.\<close>

definition xgroup_step :: "extent list \<Rightarrow> extent list \<Rightarrow> nat \<Rightarrow> grouping \<Rightarrow> grouping" where
  "xgroup_step xr yr i g =
     (let matching = matching_axes xr i;
          upper = map (\<lambda>j. snd (yr ! j)) matching;
          g' = (if i \<notin> set (grouped g) \<and> 1 < length matching
                then g\<lparr>groups := groups g @ [matching],
                       groups_base := groups_base g @ [matching ! np_argmax upper],
                       groups_sorted := groups_sorted g @
                         [map (\<lambda>p. matching ! p) (rev (np_argsort upper))]\<rparr>
                else g)
      in g'\<lparr>grouped := grouped g' @ matching\<rparr>)"

text \<open>Lines 293-299, the body of the loop for the y axis.\<close>

definition ygroup_step :: "extent list \<Rightarrow> extent list \<Rightarrow> nat \<Rightarrow> grouping \<Rightarrow> grouping" where
  "ygroup_step xr yr i g =
     (let matching = matching_axes yr i;
          lower = map (\<lambda>j. fst (xr ! j)) matching;
          g' = (if i \<notin> set (grouped g) \<and> 1 < length matching
                then g\<lparr>groups := groups g @ [matching],
                       groups_base := groups_base g @ [matching ! np_argmin lower],
                       groups_sorted := groups_sorted g @
                         [map (\<lambda>p. matching ! p) (np_argsort lower)]\<rparr>
                else g)
      in g'\<lparr>grouped := grouped g' @ matching\<rparr>)"

text \<open>Lines 276-289 and 290-299: the loops, run only when sharing is enabled.\<close>

definition xgrouper :: "bool \<Rightarrow> nat \<Rightarrow> extent list \<Rightarrow> extent list \<Rightarrow> grouping" where
  "xgrouper sharex num_axes xr yr =
     (if sharex then fold (xgroup_step xr yr) [0..<num_axes] no_groups else no_groups)"

definition ygrouper :: "bool \<Rightarrow> nat \<Rightarrow> extent list \<Rightarrow> extent list \<Rightarrow> grouping" where
  "ygrouper sharey num_axes xr yr =
     (if sharey then fold (ygroup_step xr yr) [0..<num_axes] no_groups else no_groups)"

section \<open>Draw orchestrator (lines 310-366)\<close>

text \<open>
  The figure is outside this file: \<^verbatim>\<open>fig.panel_factory\<close> and \<^verbatim>\<open>fig.add_subplot\<close> return
  a new axes object at each call, and \<^verbatim>\<open>_sharex_setup\<close>, \<^verbatim>\<open>_sharey_setup\<close> act on such
  objects. The model keeps the calls made, in order. The object a creating call returns
  is named by the position of that call in the list, so that two calls never return the
  same object and \<^verbatim>\<open>is\<close> is equality of handles.
\<close>

datatype handle = Axes nat

datatype factory = Panel_factory | Add_subplot

text \<open>
  \<open>Create f ye xe number sharex sharey\<close>: the call of \<open>f\<close> on
  \<^verbatim>\<open>gs[slice(*yrange[i,:]), slice(*xrange[i,:])]\<close> with \<^verbatim>\<open>number=i+1\<close> and the
  \<^verbatim>\<open>sharex\<close>, \<^verbatim>\<open>sharey\<close> arguments (\<open>None\<close> when they are \<^verbatim>\<open>None\<close> or not passed, as in
  the first pass). \<open>Sharex_setup h b\<close> is \<^verbatim>\<open>h._sharex_setup(b)\<close>.
\<close>

datatype call =
    Create factory extent extent nat "handle option" "handle option"
  | Sharex_setup handle handle
  | Sharey_setup handle handle

record figure =
  axs :: "handle option list"
  calls :: "call list"

text \<open>
  The static inputs of the two passes: the flags, the extent tables, the group tables
  and, for each panel, whether \<^verbatim>\<open>innerpanels_kw[i]['whichpanels']\<close> is non-empty.
\<close>

record layout =
  sharex :: bool
  sharey :: bool
  num_axes :: nat
  xtable :: "extent list"
  ytable :: "extent list"
  xg :: grouping
  yg :: grouping
  whichpanels :: "nat \<Rightarrow> bool"

text \<open>Lines 320-327 and 359-366: create the axes of panel \<open>i\<close> and store it in \<^verbatim>\<open>axs[i]\<close>.\<close>

definition create_axes :: "layout \<Rightarrow> nat \<Rightarrow> handle option \<Rightarrow> handle option \<Rightarrow> figure \<Rightarrow> figure" where
  "create_axes L i sx sy fig =
     fig\<lparr>axs := (axs fig)[i := Some (Axes (length (calls fig)))],
         calls := calls fig @
           [Create (if whichpanels L i then Panel_factory else Add_subplot)
                   (ytable L ! i) (xtable L ! i) (i + 1) sx sy]\<rparr>"

text \<open>Lines 311-315.\<close>

definition allgroups_base :: "layout \<Rightarrow> nat list" where
  "allgroups_base L =
     (if sharex L then groups_base (xg L) else []) @
     (if sharey L then groups_base (yg L) else [])"

text \<open>Lines 316-327, the first pass. An index past the end of \<^verbatim>\<open>axs\<close> is an IndexError.\<close>

fun draw_bases :: "layout \<Rightarrow> nat list \<Rightarrow> figure \<Rightarrow> error + figure" where
  "draw_bases L [] fig = Inr fig"
| "draw_bases L (i # rest) fig =
     (if length (axs fig) \<le> i then Inl IndexError
      else if axs fig ! i \<noteq> None then draw_bases L rest fig
      else draw_bases L rest (create_axes L i None None fig))"

text \<open>
  Lines 335-340 (and 341-346): \<^verbatim>\<open>igroup = np.where([i in g for g in groups])[0]\<close>; with
  exactly one group, the axes of its base, which must have been drawn.
\<close>

definition share_ax :: "bool \<Rightarrow> grouping \<Rightarrow> nat \<Rightarrow> figure \<Rightarrow> error + handle option" where
  "share_ax share g i fig =
     (if \<not> share then Inr None
      else let igroup = filter (\<lambda>k. i \<in> set (groups g ! k)) [0..<length (groups g)]
           in if length igroup = 1
              then (if length (groups_base g) \<le> igroup ! 0 then Inl IndexError
                    else if length (axs fig) \<le> groups_base g ! (igroup ! 0) then Inl IndexError
                    else (case axs fig ! (groups_base g ! (igroup ! 0)) of
                            None \<Rightarrow> Inl OrderingViolation
                          | Some h \<Rightarrow> Inr (Some h)))
              else Inr None)"

text \<open>Lines 353-356: the calls on an axes that is already drawn.\<close>

definition adopt_calls :: "handle \<Rightarrow> handle option \<Rightarrow> handle option \<Rightarrow> call list" where
  "adopt_calls h sx sy =
     (case sx of None \<Rightarrow> [] | Some b \<Rightarrow> (if h \<noteq> b then [Sharex_setup h b] else [])) @
     (case sy of None \<Rightarrow> [] | Some b \<Rightarrow> (if h \<noteq> b then [Sharey_setup h b] else []))"

text \<open>Lines 330-366, the body of the second loop.\<close>

definition draw_axes :: "layout \<Rightarrow> nat \<Rightarrow> figure \<Rightarrow> error + figure" where
  "draw_axes L i fig =
     (case share_ax (sharex L) (xg L) i fig of
        Inl e \<Rightarrow> Inl e
      | Inr sharex_ax \<Rightarrow>
          (case share_ax (sharey L) (yg L) i fig of
             Inl e \<Rightarrow> Inl e
           | Inr sharey_ax \<Rightarrow>
               (if length (axs fig) \<le> i then Inl IndexError
                else (case axs fig ! i of
                        Some h \<Rightarrow> Inr (fig\<lparr>calls := calls fig @ adopt_calls h sharex_ax sharey_ax\<rparr>)
                      | None \<Rightarrow> Inr (create_axes L i sharex_ax sharey_ax fig)))))"

fun draw_dependents :: "layout \<Rightarrow> nat list \<Rightarrow> figure \<Rightarrow> error + figure" where
  "draw_dependents L [] fig = Inr fig"
| "draw_dependents L (i # rest) fig =
     (case draw_axes L i fig of Inl e \<Rightarrow> Inl e | Inr fig' \<Rightarrow> draw_dependents L rest fig')"

text \<open>Line 310 and the two passes.\<close>

definition first_pass :: "layout \<Rightarrow> error + figure" where
  "first_pass L =
     draw_bases L (allgroups_base L) \<lparr>axs = replicate (num_axes L) None, calls = []\<rparr>"

definition draw :: "layout \<Rightarrow> error + figure" where
  "draw L =
     (case first_pass L of
        Inl e \<Rightarrow> Inl e
      | Inr fig \<Rightarrow> draw_dependents L [0..<num_axes L] fig)"

text \<open>The layout of a canonical grid: lines 266-299 feed lines 310-366.\<close>

definition layout_of ::
  "int list list \<Rightarrow> nat \<Rightarrow> nat \<Rightarrow> nat \<Rightarrow> bool \<Rightarrow> bool \<Rightarrow> (nat \<Rightarrow> bool) \<Rightarrow> layout" where
  "layout_of a n row_offset col_offset shx shy wp =
     \<lparr>sharex = shx, sharey = shy, num_axes = n,
      xtable = xrange a col_offset, ytable = yrange a row_offset,
      xg = xgrouper shx n (xrange a col_offset) (yrange a row_offset),
      yg = ygrouper shy n (xrange a col_offset) (yrange a row_offset),
      whichpanels = wp\<rparr>"

section \<open>The check after drawing (lines 368-373)\<close>







section \<open>Panel-strip allocator (lines 378-398)\<close>






section \<open>Per-panel property resolver (lines 137-160)\<close>

text \<open>
  \<^verbatim>\<open>axes_dict(value, kw=False)\<close>. The value is a scalar or a dictionary; a key of the
  dictionary is a panel number or a collection of panel numbers, which
  \<^verbatim>\<open>np.atleast_1d\<close> turns into an array (here the list of the numbers, one number for a
  scalar key). A dictionary is the list of its items in iteration order.
\<close>

datatype 'v property = Scalar 'v | Dict "(int list \<times> 'v) list"

text \<open>\<^verbatim>\<open>d[k] = v\<close> on a dictionary kept as the list of its items.\<close>

primrec setitem :: "'k \<Rightarrow> 'v \<Rightarrow> ('k \<times> 'v) list \<Rightarrow> ('k \<times> 'v) list" where
  "setitem k v [] = [(k, v)]"
| "setitem k v (p # ps) = (if fst p = k then (k, v) # ps else p # setitem k v ps)"

text \<open>Lines 152-156.\<close>

definition unfurl :: "(int list \<times> 'v) list \<Rightarrow> (int \<times> 'v) list" where
  "unfurl items =
     fold (\<lambda>(nums, item) kw_out. fold (\<lambda>num. setitem (num - 1) item) nums kw_out) items []"

definition axes_dict :: "nat \<Rightarrow> 'v property \<Rightarrow> error + (int \<times> 'v) list" where
  "axes_dict n value =
     (let items = (case value of
                     Scalar v \<Rightarrow> [(map int [1..<n + 1], v)]
                   | Dict d \<Rightarrow> d);
          kw_out = unfurl items
      in if set (map int [0..<n]) \<noteq> set (map fst kw_out)
         then Inl (InvalidPropertySpec (map (\<lambda>i. i + 1) (sort (map fst kw_out))))
         else Inr kw_out)"

text \<open>The panel numbers in \<open>1..N\<close> that no key of the dictionary mentions.\<close>

definition absent_ids :: "nat \<Rightarrow> (int list \<times> 'v) list \<Rightarrow> int list" where
  "absent_ids n d =
     filter (\<lambda>i. i \<notin> set (concat (map fst d))) (map int [1..<n + 1])"

section \<open>The list of axes (lines 44-79)\<close>

text \<open>
  An element of the list answers \<^verbatim>\<open>getattr(ax, attr, None)\<close>: \<open>None\<close> for no attribute (or
  one that is \<^verbatim>\<open>None\<close>), a method, or another value. A method takes its arguments and
  the state of the figure and returns its result (\<open>None\<close> for \<^verbatim>\<open>None\<close>) and the new state.
\<close>

datatype ('a, 'r, 'w) attribute =
    Method "'a \<Rightarrow> 'w \<Rightarrow> 'r option \<times> 'w"
  | Field 'r

type_synonym ('a, 'r, 'w) axes = "string \<Rightarrow> ('a, 'r, 'w) attribute option"

definition callable :: "('a, 'r, 'w) attribute option \<Rightarrow> bool" where
  "callable v = (case v of Some (Method f) \<Rightarrow> True | _ \<Rightarrow> False)"

text \<open>Line 74: \<^verbatim>\<open>None if not ret else ret[0] if len(ret)==1 else ret\<close>.\<close>

datatype 'r returned = Nothing | Single 'r | Several "'r list"

definition unwrap :: "'r list \<Rightarrow> 'r returned" where
  "unwrap ret = (if ret = [] then Nothing else if length ret = 1 then Single (ret ! 0) else Several ret)"

text \<open>Lines 69-73, the loop of \<^verbatim>\<open>iterator\<close>.\<close>

fun iterate :: "('a, 'r, 'w) axes list \<Rightarrow> string \<Rightarrow> 'a \<Rightarrow> 'r list \<Rightarrow> 'w \<Rightarrow> error + ('r list \<times> 'w)" where
  "iterate [] attr args ret w = Inr (ret, w)"
| "iterate (ax # rest) attr args ret w =
     (case ax attr of
        None \<Rightarrow> Inl NoMethod
      | Some (Field v) \<Rightarrow> Inl NotCallable
      | Some (Method f) \<Rightarrow>
          (case f args w of
             (res, w') \<Rightarrow>
               iterate rest attr args (case res of None \<Rightarrow> ret | Some r \<Rightarrow> ret @ [r]) w'))"

definition iterator :: "('a, 'r, 'w) axes list \<Rightarrow> string \<Rightarrow> 'a \<Rightarrow> 'w \<Rightarrow> error + ('r returned \<times> 'w)" where
  "iterator self attr args w =
     (case iterate self attr args [] w of
        Inl e \<Rightarrow> Inl e
      | Inr (ret, w') \<Rightarrow> Inr (unwrap ret, w'))"

text \<open>
  What \<^verbatim>\<open>__getattr__\<close> returns: the function \<^verbatim>\<open>iterator\<close>, one value, or the list. On
  an empty list \<^verbatim>\<open>values\<close> is empty, \<^verbatim>\<open>None in values\<close> is false and \<^verbatim>\<open>all(...)\<close> is true,
  so line 67, \<^verbatim>\<open>@wraps(values[0])\<close>, raises \<^verbatim>\<open>IndexError\<close>.
\<close>

datatype ('a, 'r, 'w) got =
    Broadcast "'a \<Rightarrow> 'w \<Rightarrow> error + ('r returned \<times> 'w)"
  | One_value 'r
  | Values "'r list"

definition field_value :: "('a, 'r, 'w) attribute option \<Rightarrow> 'r list" where
  "field_value v = (case v of Some (Field r) \<Rightarrow> [r] | _ \<Rightarrow> [])"

definition getattr :: "('a, 'r, 'w) axes list \<Rightarrow> string \<Rightarrow> error + ('a, 'r, 'w) got" where
  "getattr self attr =
     (let values = map (\<lambda>ax. ax attr) self
      in if None \<in> set values then Inl NoMethod
         else if list_all callable values
              then (if values = [] then Inl IndexError else Inr (Broadcast (iterator self attr)))
         else if list_all (\<lambda>v. \<not> callable v) values
              then Inr (if length values = 1 then One_value (concat (map field_value values) ! 0)
                        else Values (concat (map field_value values)))
         else Inl MixedMethods)"

text \<open>
  Lines 53-58. The key is an integer or a slice \<^verbatim>\<open>start:stop:step\<close> with optional parts.
  \<^verbatim>\<open>list.__getitem__\<close> is Python's: an integer is an index (\<open>py_index\<close>), a slice selects
  \<^verbatim>\<open>slicelength\<close> positions from \<^verbatim>\<open>start\<close> in steps of \<^verbatim>\<open>step\<close>, the bounds clipped as
  \<^verbatim>\<open>slice.indices\<close> does, and a step of zero is a \<^verbatim>\<open>ValueError\<close>.
\<close>

datatype key = Index int | Slice "int option" "int option" "int option"

definition clip :: "int \<Rightarrow> int \<Rightarrow> int option \<Rightarrow> int \<Rightarrow> int" where
  "clip n step bound dflt =
     (case bound of
        None \<Rightarrow> dflt
      | Some b \<Rightarrow>
          (if b < 0 then (if b + n < 0 then (if step < 0 then - 1 else 0) else b + n)
           else if n \<le> b then (if step < 0 then n - 1 else n)
           else b))"

definition slice_positions :: "nat \<Rightarrow> int option \<Rightarrow> int option \<Rightarrow> int \<Rightarrow> nat list" where
  "slice_positions len start stop step =
     (let n = int len;
          lo = clip n step start (if step < 0 then n - 1 else 0);
          hi = clip n step stop (if step < 0 then - 1 else n);
          slicelength = (if step < 0 then (if hi < lo then (lo - hi - 1) div (- step) + 1 else 0)
                         else (if lo < hi then (hi - lo - 1) div step + 1 else 0))
      in map (\<lambda>k. nat (lo + int k * step)) [0..<nat slicelength])"

datatype 'h item = Bare 'h | Axes_list "'h list"

definition list_getitem :: "'h list \<Rightarrow> key \<Rightarrow> error + 'h list" where
  "list_getitem self k =
     (case k of
        Index i \<Rightarrow> (case py_index (length self) i of Inl e \<Rightarrow> Inl e | Inr p \<Rightarrow> Inr [self ! p])
      | Slice start stop step \<Rightarrow>
          (if step = Some 0 then Inl SliceStepZero
           else Inr (map (\<lambda>p. self ! p)
                         (slice_positions (length self) start stop
                            (case step of None \<Rightarrow> 1 | Some s \<Rightarrow> s)))))"

definition is_slice :: "key \<Rightarrow> bool" where
  "is_slice k = (case k of Slice _ _ _ \<Rightarrow> True | Index _ \<Rightarrow> False)"

definition getitem :: "'h list \<Rightarrow> key \<Rightarrow> error + 'h item" where
  "getitem self k =
     (case list_getitem self k of
        Inl e \<Rightarrow> Inl e
      | Inr sel \<Rightarrow> (if is_slice k then Inr (Axes_list sel) else Inr (Bare (sel ! 0))))"

text \<open>
  The arrangement in which every \<^verbatim>\<open>None\<close> cell is written as the empty cell \<open>0\<close>, and the
  integers an arrangement holds (its cells that are not \<^verbatim>\<open>None\<close>).
\<close>

definition none_as_zero :: "arrangement \<Rightarrow> arrangement" where
  "none_as_zero array =
     (case array of
        Auto \<Rightarrow> Auto
      | Flat xs \<Rightarrow> Flat (map (\<lambda>c. Some (none_to_zero c)) xs)
      | Grid a \<Rightarrow> Grid (map (map (\<lambda>c. Some (none_to_zero c))) a))"

definition integers_of :: "cell list list \<Rightarrow> int list" where
  "integers_of a = concat (map (\<lambda>c. case c of None \<Rightarrow> [] | Some v \<Rightarrow> [v]) (concat a))"

text \<open>
  For the statements about \<open>axes_dict\<close>: the (position, value) pairs in the order in which
  lines 153-156 store them, and the panel numbers the keys of a dictionary mention.
\<close>

definition entries :: "(int list \<times> 'v) list \<Rightarrow> (int \<times> 'v) list" where
  "entries d = concat (map (\<lambda>(nums, item). map (\<lambda>num. (num - 1, item)) nums) d)"

definition mentioned_ids :: "(int list \<times> 'v) list \<Rightarrow> int list" where
  "mentioned_ids d = concat (map fst d)"

text \<open>
  For the statement about broadcasting: the methods the elements of the list hold under a
  name, the calls of a list of methods one after the other, each on the state the call
  before it left, with all their results, and the results that are not \<^verbatim>\<open>None\<close>.
\<close>

definition methods_of :: "('a, 'r, 'w) axes list \<Rightarrow> string \<Rightarrow> ('a \<Rightarrow> 'w \<Rightarrow> 'r option \<times> 'w) list" where
  "methods_of self attr =
     concat (map (\<lambda>ax. case ax attr of Some (Method f) \<Rightarrow> [f] | _ \<Rightarrow> []) self)"

fun fan_out :: "('a \<Rightarrow> 'w \<Rightarrow> 'r option \<times> 'w) list \<Rightarrow> 'a \<Rightarrow> 'w \<Rightarrow> 'r option list \<times> 'w" where
  "fan_out [] args w = ([], w)"
| "fan_out (f # fs) args w =
     (case f args w of
        (res, w') \<Rightarrow> (case fan_out fs args w' of (ress, w'') \<Rightarrow> (res # ress, w'')))"

definition non_null :: "'r option list \<Rightarrow> 'r list" where
  "non_null ress = concat (map (\<lambda>res. case res of None \<Rightarrow> [] | Some r \<Rightarrow> [r]) ress)"

text \<open>
  Three axes for an example: their method \<open>m\<close> appends a mark to the state, and returns a
  number on the first and third and \<^verbatim>\<open>None\<close> on the second; \<open>v\<close> is a field of the first and
  a method of the second.
\<close>

definition ax_a :: "(nat, nat, nat list) axes" where
  "ax_a = (\<lambda>name. if name = ''m'' then Some (Method (\<lambda>x w. (Some (x + 1), w @ [1])))
                   else if name = ''v'' then Some (Field 7) else None)"
definition ax_b :: "(nat, nat, nat list) axes" where
  "ax_b = (\<lambda>name. if name = ''m'' then Some (Method (\<lambda>x w. (None, w @ [2])))
                   else if name = ''v'' then Some (Method (\<lambda>x w. (None, w))) else None)"
definition ax_c :: "(nat, nat, nat list) axes" where
  "ax_c = (\<lambda>name. if name = ''m'' then Some (Method (\<lambda>x w. (Some (x + 3), w @ [3])))
                   else None)"

text \<open>
  For the statements about the grouper. The two loops of lines 278-289 and 292-299 differ
  in the table they compare and in how they pick the base and the order of a group:
  \<open>group_step\<close> is their common shape. \<open>first_of_class\<close> holds of the first panel with a
  given extent, and \<open>leaders\<close> lists the panels at which the loop records a group.
\<close>

definition group_step ::
  "extent list \<Rightarrow> (nat list \<Rightarrow> nat) \<Rightarrow> (nat list \<Rightarrow> nat list) \<Rightarrow> nat \<Rightarrow> grouping \<Rightarrow> grouping" where
  "group_step rng base_of sorted_of i g =
     (let matching = matching_axes rng i;
          g' = (if i \<notin> set (grouped g) \<and> 1 < length matching
                then g\<lparr>groups := groups g @ [matching],
                       groups_base := groups_base g @ [base_of matching],
                       groups_sorted := groups_sorted g @ [sorted_of matching]\<rparr>
                else g)
      in g'\<lparr>grouped := grouped g' @ matching\<rparr>)"

definition first_of_class :: "extent list \<Rightarrow> nat \<Rightarrow> bool" where
  "first_of_class rng i = (\<forall>j \<in> set [0..<i]. rng ! j \<noteq> rng ! i)"

definition leaders :: "extent list \<Rightarrow> nat \<Rightarrow> nat list" where
  "leaders rng n = filter (\<lambda>i. first_of_class rng i \<and> 1 < length (matching_axes rng i)) [0..<n]"

definition x_base_of :: "extent list \<Rightarrow> nat list \<Rightarrow> nat" where
  "x_base_of yr matching = matching ! np_argmax (map (\<lambda>j. snd (yr ! j)) matching)"

definition x_sorted_of :: "extent list \<Rightarrow> nat list \<Rightarrow> nat list" where
  "x_sorted_of yr matching = map (\<lambda>p. matching ! p) (rev (np_argsort (map (\<lambda>j. snd (yr ! j)) matching)))"

definition y_base_of :: "extent list \<Rightarrow> nat list \<Rightarrow> nat" where
  "y_base_of xr matching = matching ! np_argmin (map (\<lambda>j. fst (xr ! j)) matching)"

definition y_sorted_of :: "extent list \<Rightarrow> nat list \<Rightarrow> nat list" where
  "y_sorted_of xr matching = map (\<lambda>p. matching ! p) (np_argsort (map (\<lambda>j. fst (xr ! j)) matching))"

text \<open>
  What the specification asks of a group \<open>g\<close>, its base \<open>b\<close> and its order \<open>s\<close>: \<open>b\<close> is the
  member with the greatest (smallest) key, the first one in the order of the panel
  numbers; \<open>g\<close> has more than one member and holds every panel whose extent equals that of
  one panel; \<open>s\<close> lists the members of \<open>g\<close>, each once, by descending (ascending) key. A panel
  shares its extent when another panel has the same one.
\<close>

definition is_first_max :: "(nat \<Rightarrow> nat) \<Rightarrow> nat list \<Rightarrow> nat \<Rightarrow> bool" where
  "is_first_max key g b =
     (b \<in> set g \<and> (\<forall>j \<in> set g. key j \<le> key b) \<and> (\<forall>j \<in> set g. j < b \<longrightarrow> key j < key b))"

definition is_first_min :: "(nat \<Rightarrow> nat) \<Rightarrow> nat list \<Rightarrow> nat \<Rightarrow> bool" where
  "is_first_min key g b =
     (b \<in> set g \<and> (\<forall>j \<in> set g. key b \<le> key j) \<and> (\<forall>j \<in> set g. j < b \<longrightarrow> key b < key j))"

definition shares_extent :: "extent list \<Rightarrow> nat \<Rightarrow> bool" where
  "shares_extent rng j = (\<exists>j' \<in> set [0..<length rng]. j' \<noteq> j \<and> rng ! j' = rng ! j)"

definition x_group_spec :: "extent list \<Rightarrow> extent list \<Rightarrow> nat list \<Rightarrow> nat \<Rightarrow> nat list \<Rightarrow> bool" where
  "x_group_spec xr yr g b s =
     (1 < length g \<and> (\<exists>i \<in> set [0..<length xr]. g = matching_axes xr i) \<and>
      is_first_max (\<lambda>j. snd (yr ! j)) g b \<and>
      distinct s \<and> set s = set g \<and> sorted_wrt (\<ge>) (map (\<lambda>j. snd (yr ! j)) s))"

definition y_group_spec :: "extent list \<Rightarrow> extent list \<Rightarrow> nat list \<Rightarrow> nat \<Rightarrow> nat list \<Rightarrow> bool" where
  "y_group_spec xr yr g b s =
     (1 < length g \<and> (\<exists>i \<in> set [0..<length yr]. g = matching_axes yr i) \<and>
      is_first_min (\<lambda>j. fst (xr ! j)) g b \<and>
      distinct s \<and> set s = set g \<and> sorted (map (\<lambda>j. fst (xr ! j)) s))"

section \<open>The two passes, call by call\<close>

text \<open>
  \<open>unshared L i\<close> is the creating call of panel \<open>i\<close> with no shared axes. \<open>created_panels\<close>
  lists the panels that the creating calls of a list create, in order, and \<open>sources\<close> the
  axes that a call passes as shared axes. \<open>base_of_panel share g i\<close> is the base of the one
  group of \<open>g\<close> holding panel \<open>i\<close>, when sharing is enabled and exactly one group holds it,
  and \<open>source_of\<close> the axes stored for that base in a figure. \<open>step_calls L fig i\<close> are the
  calls expected for panel \<open>i\<close> in the second pass, from the figure \<open>fig\<close> that the first
  pass leaves: a panel not drawn yet is created with the axes of its bases as shared axes;
  a panel drawn already gets the calls of lines 353-356 on its axes.
\<close>

definition kind_of :: "layout \<Rightarrow> nat \<Rightarrow> factory" where
  "kind_of L i = (if whichpanels L i then Panel_factory else Add_subplot)"

definition unshared :: "layout \<Rightarrow> nat \<Rightarrow> call" where
  "unshared L i = Create (kind_of L i) (ytable L ! i) (xtable L ! i) (i + 1) None None"

definition created_panels :: "call list \<Rightarrow> nat list" where
  "created_panels cs =
     concat (map (\<lambda>c. case c of Create f ye xe num sx sy \<Rightarrow> [num - 1] | _ \<Rightarrow> []) cs)"

definition sources :: "call \<Rightarrow> handle list" where
  "sources c =
     (case c of
        Create f ye xe num sx sy \<Rightarrow>
          (case sx of None \<Rightarrow> [] | Some h \<Rightarrow> [h]) @ (case sy of None \<Rightarrow> [] | Some h \<Rightarrow> [h])
      | Sharex_setup h b \<Rightarrow> [b]
      | Sharey_setup h b \<Rightarrow> [b])"

definition base_of_panel :: "bool \<Rightarrow> grouping \<Rightarrow> nat \<Rightarrow> nat option" where
  "base_of_panel share g i =
     (if share
      then (case filter (\<lambda>k. i \<in> set (groups g ! k)) [0..<length (groups g)] of
              [k] \<Rightarrow> Some (groups_base g ! k)
            | _ \<Rightarrow> None)
      else None)"

definition source_of :: "bool \<Rightarrow> grouping \<Rightarrow> figure \<Rightarrow> nat \<Rightarrow> handle option" where
  "source_of share g fig i =
     (case base_of_panel share g i of None \<Rightarrow> None | Some b \<Rightarrow> axs fig ! b)"

definition step_calls :: "layout \<Rightarrow> figure \<Rightarrow> nat \<Rightarrow> call list" where
  "step_calls L fig i =
     (case axs fig ! i of
        Some h \<Rightarrow> adopt_calls h (source_of (sharex L) (xg L) fig i) (source_of (sharey L) (yg L) fig i)
      | None \<Rightarrow> [Create (kind_of L i) (ytable L ! i) (xtable L ! i) (i + 1)
                  (source_of (sharex L) (xg L) fig i) (source_of (sharey L) (yg L) fig i)])"

text \<open>
  Two invariants of the proofs: every stored axes is the result of a creating call for its
  own panel, and a group table has one base per group, each base a panel number.
\<close>

definition fig_inv :: "figure \<Rightarrow> bool" where
  "fig_inv fig =
     (\<forall>i < length (axs fig). \<forall>h. axs fig ! i = Some h \<longrightarrow>
        (\<exists>p < length (calls fig). h = Axes p \<and> created_panels [calls fig ! p] = [i]))"

definition wf_grouping :: "nat \<Rightarrow> grouping \<Rightarrow> bool" where
  "wf_grouping n g =
     (length (groups_base g) = length (groups g) \<and> (\<forall>b \<in> set (groups_base g). b < n))"


section \<open>Properties of the grid normalizer\<close>

lemma set_upt_int: "set (map int [1..<n + 1]) = {1..int n}"
proof (rule set_eqI)
  fix x :: int
  show "x \<in> set (map int [1..<n + 1]) \<longleftrightarrow> x \<in> {1..int n}"
  proof
    assume "x \<in> set (map int [1..<n + 1])"
    then obtain k where "x = int k" "1 \<le> k" "k < n + 1"
      unfolding set_map set_upt by auto
    then show "x \<in> {1..int n}" by simp
  next
    assume h: "x \<in> {1..int n}"
    then have "1 \<le> nat x" "nat x < n + 1" "x = int (nat x)" by auto
    then have "nat x \<in> set [1..<n + 1]" "x = int (nat x)"
      unfolding set_upt by auto
    then show "x \<in> set (map int [1..<n + 1])"
      unfolding set_map by (rule_tac image_eqI)
  qed
qed

lemma sorted_upt_int: "sorted (map int [1..<n + 1])" "distinct (map int [1..<n + 1])"
proof -
  have "sorted [1..<n + 1]" by (rule sorted_upt)
  then show "sorted (map int [1..<n + 1])"
    unfolding sorted_map by (rule sorted_wrt_mono_rel[rotated]) simp
  show "distinct (map int [1..<n + 1])"
    unfolding distinct_map by (simp add: inj_on_def del: upt_Suc)
qed

lemma np_unique_props: "set (np_unique xs) = set xs" "sorted (np_unique xs)" "distinct (np_unique xs)"
  by (simp_all add: np_unique_def)

lemma np_unique_span:
  assumes "set xs = {1..int n}"
  shows "np_unique xs = map int [1..<n + 1]"
proof -
  have "set (np_unique xs) = set (map int [1..<n + 1])"
    unfolding set_upt_int using assms by (simp add: np_unique_props)
  then show ?thesis
    using sorted_upt_int[of n] np_unique_props(2,3)[of xs]
    by (metis sorted_distinct_set_unique)
qed

lemma np_unique_span_conv:
  assumes "np_unique xs = map int [1..<n + 1]"
  shows "set xs = {1..int n}"
proof -
  have "set xs = set (np_unique xs)" by (simp add: np_unique_props)
  then show ?thesis using assms set_upt_int[of n] by simp
qed

lemma enforce_rule_ok:
  assumes "set (nonzero_values a) = {1..int n}"
  shows "enforce_rule a = Inr n"
proof -
  have "np_unique (nonzero_values a) = map int [1..<n + 1]"
    using assms by (rule np_unique_span)
  then show ?thesis by (simp add: enforce_rule_def Let_def del: upt_Suc)
qed

lemma enforce_rule_fail:
  assumes "\<forall>m. set (nonzero_values a) \<noteq> {1..int m}"
  shows "enforce_rule a = Inl InvalidArrangement"
proof -
  have "np_unique (nonzero_values a) \<noteq> map int [1..<length (np_unique (nonzero_values a)) + 1]"
    using assms np_unique_span_conv by blast
  then show ?thesis by (simp add: enforce_rule_def Let_def del: upt_Suc)
qed

lemma enforce_rule_Inr:
  assumes "enforce_rule a = Inr n"
  shows "set (nonzero_values a) = {1..int n}"
proof (rule ccontr)
  assume h: "set (nonzero_values a) \<noteq> {1..int n}"
  show False
  proof (cases "\<exists>m. set (nonzero_values a) = {1..int m}")
    case True
    then obtain m where m: "set (nonzero_values a) = {1..int m}" by blast
    then have "enforce_rule a = Inr m" by (rule enforce_rule_ok)
    with assms have "m = n" by simp
    with m h show False by simp
  next
    case False
    then have "enforce_rule a = Inl InvalidArrangement" by (simp add: enforce_rule_fail)
    with assms show False by simp
  qed
qed

text \<open>
  Claim C5, as the code has it. Once the rows and columns to blank are zeroed, the
  normalizer succeeds with \<open>n\<close> panels when the set of non-zero values of the grid is
  exactly \<open>{1..n}\<close>, and fails with \<open>InvalidArrangement\<close> when that set is \<open>{1..m}\<close> for no
  \<open>m\<close>. The rule of line 181 looks at every non-zero value, negative ones included, not at
  the positive values only.
\<close>

theorem grid_normalizer_nonzero_span:
  assumes "masked_array array nrows ncols rowmajor emptycols emptyrows = Inr a"
  shows "(set (nonzero_values a) = {1..int n} \<longrightarrow>
            grid_normalizer array nrows ncols rowmajor emptycols emptyrows = Inr (a, n)) \<and>
         ((\<forall>m. set (nonzero_values a) \<noteq> {1..int m}) \<longrightarrow>
            grid_normalizer array nrows ncols rowmajor emptycols emptyrows = Inl InvalidArrangement)"
proof (intro conjI impI)
  assume "set (nonzero_values a) = {1..int n}"
  then have "enforce_rule a = Inr n" by (rule enforce_rule_ok)
  with assms show "grid_normalizer array nrows ncols rowmajor emptycols emptyrows = Inr (a, n)"
    by (simp add: grid_normalizer_def)
next
  assume "\<forall>m. set (nonzero_values a) \<noteq> {1..int m}"
  then have "enforce_rule a = Inl InvalidArrangement" by (rule enforce_rule_fail)
  with assms show "grid_normalizer array nrows ncols rowmajor emptycols emptyrows = Inl InvalidArrangement"
    by (simp add: grid_normalizer_def)
qed

theorem grid_normalizer_nonzero_span_witness:
  "grid_normalizer (Grid [[Some 1, Some 2], [Some 1, Some 3]]) 1 1 True [] [] = Inr ([[1, 2], [1, 3]], 3) \<and>
   grid_normalizer (Grid [[Some 1, Some 3]]) 1 1 True [] [] = Inl InvalidArrangement"
proof -
  have m1: "masked_array (Grid [[Some 1, Some 2], [Some 1, Some 3]]) 1 1 True [] [] = Inr [[1, 2], [1, 3]]"
    by (simp add: masked_array_def array_setup_def fill_none_def none_to_zero_def)
  have s1: "set (nonzero_values [[1, 2], [1, 3]]) = {1..int 3}"
    by (auto simp: nonzero_values_def)
  have m2: "masked_array (Grid [[Some 1, Some 3]]) 1 1 True [] [] = Inr [[1, 3]]"
    by (simp add: masked_array_def array_setup_def fill_none_def none_to_zero_def)
  have s2: "\<forall>m. set (nonzero_values [[1, 3]]) \<noteq> {1..int m}"
  proof
    fix m show "set (nonzero_values [[1, 3]]) \<noteq> {1..int m}"
    proof
      assume h: "set (nonzero_values [[1, 3]]) = {1..int m}"
      have "(3::int) \<in> set (nonzero_values [[1, 3]])" by (simp add: nonzero_values_def)
      with h have "3 \<le> int m" by simp
      then have "(2::int) \<in> {1..int m}" by simp
      with h have "(2::int) \<in> set (nonzero_values [[1, 3]])" by simp
      then show False by (simp add: nonzero_values_def)
    qed
  qed
  show ?thesis
    using grid_normalizer_nonzero_span[OF m1, of 3] grid_normalizer_nonzero_span[OF m2, of 0] s1 s2
    by blast
qed

text \<open>
  Claim C5 as stated fails: the positive values of \<open>[[1, -1]]\<close> are exactly \<open>{1}\<close>, and
  the normalizer rejects the arrangement.
\<close>

theorem positive_span_counterexample:
  "set (positive_values [[1, - 1]]) = {1..int 1} \<and>
   masked_array (Grid [[Some 1, Some (- 1)]]) 1 1 True [] [] = Inr [[1, - 1]] \<and>
   grid_normalizer (Grid [[Some 1, Some (- 1)]]) 1 1 True [] [] = Inl InvalidArrangement"
  by (simp add: positive_values_def grid_normalizer_def masked_array_def array_setup_def
      fill_none_def none_to_zero_def enforce_rule_def nonzero_values_def np_unique_def Let_def)

lemma none_to_zero_idem: "none_to_zero (Some (none_to_zero c)) = none_to_zero c"
  by (simp add: none_to_zero_def)

lemma fill_none_setup:
  "fill_none (array_setup (none_as_zero array) nrows ncols rowmajor) =
   fill_none (array_setup array nrows ncols rowmajor)"
  by (cases array)
     (simp_all add: none_as_zero_def array_setup_def fill_none_def none_to_zero_idem comp_def)

lemma nonzero_fill_none: "nonzero_values (fill_none a) = filter (\<lambda>v. v \<noteq> 0) (integers_of a)"
proof -
  have "filter (\<lambda>v. v \<noteq> 0) (map none_to_zero xs) =
        filter (\<lambda>v. v \<noteq> 0) (concat (map (\<lambda>c. case c of None \<Rightarrow> [] | Some v \<Rightarrow> [v]) xs))" for xs
    by (induction xs) (auto simp: none_to_zero_def split: option.splits)
  then show ?thesis
    by (simp add: nonzero_values_def fill_none_def integers_of_def map_concat[symmetric])
qed

lemma zero_cols_cells:
  assumes "zero_cols cols a = Inr g"
  shows "length g = length a \<and>
         (\<forall>r < length a. length (g ! r) = length (a ! r) \<and>
            (\<forall>c < length (a ! r). g ! r ! c = a ! r ! c \<or> g ! r ! c = 0))"
  using assms
proof (induction cols arbitrary: a)
  case Nil
  then show ?case by simp
next
  case (Cons col cols)
  from Cons.prems obtain c where c: "py_index (shape1 a) (col - 1) = Inr c"
    and z: "zero_cols cols (map (\<lambda>row. row[c := 0]) a) = Inr g"
    by (auto split: sum.splits)
  let ?a = "map (\<lambda>row. row[c := 0]) a"
  note ih = Cons.IH[OF z]
  show ?case
  proof (intro conjI allI impI)
    show "length g = length a" using ih by simp
  next
    fix r assume r: "r < length a"
    then show "length (g ! r) = length (a ! r)" using ih by simp
  next
    fix r c' assume r: "r < length a" and c': "c' < length (a ! r)"
    from ih r c' have "g ! r ! c' = ?a ! r ! c' \<or> g ! r ! c' = 0" by simp
    moreover have "?a ! r ! c' = a ! r ! c' \<or> ?a ! r ! c' = 0"
      using r c' by (cases "c < length (a ! r)") (simp_all add: nth_list_update)
    ultimately show "g ! r ! c' = a ! r ! c' \<or> g ! r ! c' = 0" by auto
  qed
qed

lemma zero_rows_cells:
  assumes "zero_rows rows a = Inr g"
  shows "length g = length a \<and>
         (\<forall>r < length a. length (g ! r) = length (a ! r) \<and>
            (\<forall>c < length (a ! r). g ! r ! c = a ! r ! c \<or> g ! r ! c = 0))"
  using assms
proof (induction rows arbitrary: a)
  case Nil
  then show ?case by simp
next
  case (Cons row rows)
  from Cons.prems obtain q where q: "py_index (shape0 a) (row - 1) = Inr q"
    and z: "zero_rows rows (a[q := map (\<lambda>_. 0) (a ! q)]) = Inr g"
    by (auto split: sum.splits)
  let ?a = "a[q := map (\<lambda>_. 0) (a ! q)]"
  note ih = Cons.IH[OF z]
  have la: "length (?a ! r) = length (a ! r)" if "r < length a" for r
    using that by (cases "q < length a") (simp_all add: nth_list_update)
  show ?case
  proof (intro conjI allI impI)
    show "length g = length a" using ih by simp
  next
    fix r assume r: "r < length a"
    then show "length (g ! r) = length (a ! r)" using ih la by simp
  next
    fix r c' assume r: "r < length a" and c': "c' < length (a ! r)"
    from ih r c' la[OF r] have "g ! r ! c' = ?a ! r ! c' \<or> g ! r ! c' = 0" by simp
    moreover have "?a ! r ! c' = a ! r ! c' \<or> ?a ! r ! c' = 0"
      using r c' by (cases "q < length a") (auto simp: nth_list_update)
    ultimately show "g ! r ! c' = a ! r ! c' \<or> g ! r ! c' = 0" by auto
  qed
qed

lemma masked_array_cells:
  assumes "masked_array array nrows ncols rowmajor emptycols emptyrows = Inr g"
    and "A = array_setup array nrows ncols rowmajor"
  shows "length g = length A \<and>
         (\<forall>r < length A. length (g ! r) = length (A ! r) \<and>
            (\<forall>c < length (A ! r). g ! r ! c = none_to_zero (A ! r ! c) \<or> g ! r ! c = 0))"
proof -
  from assms obtain b where b: "zero_cols emptycols (fill_none A) = Inr b"
    and g: "zero_rows emptyrows b = Inr g"
    by (auto simp: masked_array_def split: sum.splits)
  note cb = zero_cols_cells[OF b] and rg = zero_rows_cells[OF g]
  have lf: "length (fill_none A) = length A" by (simp add: fill_none_def)
  have rf: "length (fill_none A ! r) = length (A ! r)" if "r < length A" for r
    using that by (simp add: fill_none_def)
  have cf: "fill_none A ! r ! c = none_to_zero (A ! r ! c)" if "r < length A" "c < length (A ! r)" for r c
    using that by (simp add: fill_none_def)
  show ?thesis
  proof (intro conjI allI impI)
    show "length g = length A" using cb rg lf by simp
  next
    fix r assume r: "r < length A"
    then show "length (g ! r) = length (A ! r)" using cb rg lf rf by simp
  next
    fix r c assume r: "r < length A" and c: "c < length (A ! r)"
    have 1: "b ! r ! c = fill_none A ! r ! c \<or> b ! r ! c = 0" using cb r c lf rf by simp
    have "r < length b" "c < length (b ! r)" using cb r c lf rf by simp_all
    then have 2: "g ! r ! c = b ! r ! c \<or> g ! r ! c = 0" using rg by simp
    from 1 2 show "g ! r ! c = none_to_zero (A ! r ! c) \<or> g ! r ! c = 0"
      using cf[OF r c] by auto
  qed
qed


lemma enforce_rule_iff: "enforce_rule a = Inr n \<longleftrightarrow> set (nonzero_values a) = {1..int n}"
  using enforce_rule_ok enforce_rule_Inr by blast

text \<open>
  Claim C9. Let \<open>A\<close> be the arrangement after lines 163-169. Whenever the normalizer
  accepts, with any rows and columns blanked, the canonical grid has the shape of \<open>A\<close>, each
  cell that is \<^verbatim>\<open>None\<close> in \<open>A\<close> is \<open>0\<close> in it, each of its non-zero cells holds the integer
  that \<open>A\<close> holds there, and its non-zero values are exactly \<open>1..n\<close>: a panel number never
  comes from a \<^verbatim>\<open>None\<close> cell. With nothing blanked the normalizer accepts with grid \<open>g'\<close>
  and \<open>n'\<close> panels exactly when \<open>g'\<close> is \<open>A\<close> with \<open>0\<close> for each \<^verbatim>\<open>None\<close> and the non-zero
  integers of the cells that are not \<^verbatim>\<open>None\<close> are exactly \<open>1..n'\<close>: the \<^verbatim>\<open>None\<close> cells have no
  part in the rule. The result is the same as on the arrangement with every \<^verbatim>\<open>None\<close>
  written as \<open>0\<close>.
\<close>

theorem none_cells_are_empty_cells:
  assumes "A = array_setup array nrows ncols rowmajor"
  shows
   "(grid_normalizer array nrows ncols rowmajor emptycols emptyrows = Inr (g, n) \<longrightarrow>
       length g = length A \<and>
       (\<forall>r < length A. length (g ! r) = length (A ! r) \<and>
          (\<forall>c < length (A ! r). (A ! r ! c = None \<longrightarrow> g ! r ! c = 0) \<and>
                                (g ! r ! c \<noteq> 0 \<longrightarrow> A ! r ! c = Some (g ! r ! c)))) \<and>
       set (nonzero_values g) = {1..int n}) \<and>
    (grid_normalizer array nrows ncols rowmajor [] [] = Inr (g', n') \<longleftrightarrow>
       g' = fill_none A \<and> set (filter (\<lambda>v. v \<noteq> 0) (integers_of A)) = {1..int n'}) \<and>
    (\<forall>r < length A. \<forall>c < length (A ! r).
       fill_none A ! r ! c = (case A ! r ! c of None \<Rightarrow> 0 | Some v \<Rightarrow> v)) \<and>
    grid_normalizer array nrows ncols rowmajor emptycols emptyrows =
      grid_normalizer (none_as_zero array) nrows ncols rowmajor emptycols emptyrows \<and>
    masked_array array nrows ncols rowmajor [] [] = Inr (fill_none A) \<and>
    nonzero_values (fill_none A) = filter (\<lambda>v. v \<noteq> 0) (integers_of A)"
proof (intro conjI)
  show "grid_normalizer array nrows ncols rowmajor emptycols emptyrows = Inr (g, n) \<longrightarrow>
       length g = length A \<and>
       (\<forall>r < length A. length (g ! r) = length (A ! r) \<and>
          (\<forall>c < length (A ! r). (A ! r ! c = None \<longrightarrow> g ! r ! c = 0) \<and>
                                (g ! r ! c \<noteq> 0 \<longrightarrow> A ! r ! c = Some (g ! r ! c)))) \<and>
       set (nonzero_values g) = {1..int n}"
  proof
    assume h: "grid_normalizer array nrows ncols rowmajor emptycols emptyrows = Inr (g, n)"
    then have m: "masked_array array nrows ncols rowmajor emptycols emptyrows = Inr g"
      and e: "enforce_rule g = Inr n"
      by (auto simp: grid_normalizer_def split: sum.splits)
    note mc = masked_array_cells[OF m assms]
    show "length g = length A \<and>
       (\<forall>r < length A. length (g ! r) = length (A ! r) \<and>
          (\<forall>c < length (A ! r). (A ! r ! c = None \<longrightarrow> g ! r ! c = 0) \<and>
                                (g ! r ! c \<noteq> 0 \<longrightarrow> A ! r ! c = Some (g ! r ! c)))) \<and>
       set (nonzero_values g) = {1..int n}"
    proof (intro conjI allI impI)
      show "length g = length A" using mc by simp
    next
      fix r assume "r < length A"
      then show "length (g ! r) = length (A ! r)" using mc by simp
    next
      fix r c assume rc: "r < length A" "c < length (A ! r)" and no: "A ! r ! c = None"
      from mc rc have "g ! r ! c = none_to_zero (A ! r ! c) \<or> g ! r ! c = 0" by simp
      then show "g ! r ! c = 0" by (simp add: no none_to_zero_def)
    next
      fix r c assume rc: "r < length A" "c < length (A ! r)" and nz: "g ! r ! c \<noteq> 0"
      from mc rc have "g ! r ! c = none_to_zero (A ! r ! c) \<or> g ! r ! c = 0" by simp
      with nz have "g ! r ! c = none_to_zero (A ! r ! c)" by simp
      with nz show "A ! r ! c = Some (g ! r ! c)"
        by (cases "A ! r ! c") (simp_all add: none_to_zero_def)
    next
      show "set (nonzero_values g) = {1..int n}" using e by (rule enforce_rule_Inr)
    qed
  qed
next
  have m: "masked_array array nrows ncols rowmajor [] [] = Inr (fill_none A)"
    by (simp add: masked_array_def assms)
  show "grid_normalizer array nrows ncols rowmajor [] [] = Inr (g', n') \<longleftrightarrow>
       g' = fill_none A \<and> set (filter (\<lambda>v. v \<noteq> 0) (integers_of A)) = {1..int n'}"
    unfolding nonzero_fill_none[symmetric] enforce_rule_iff[symmetric]
    by (auto simp: grid_normalizer_def m split: sum.splits)
next
  show "\<forall>r < length A. \<forall>c < length (A ! r).
       fill_none A ! r ! c = (case A ! r ! c of None \<Rightarrow> 0 | Some v \<Rightarrow> v)"
    by (simp add: fill_none_def none_to_zero_def)
next
  show "grid_normalizer array nrows ncols rowmajor emptycols emptyrows =
      grid_normalizer (none_as_zero array) nrows ncols rowmajor emptycols emptyrows"
    by (simp add: grid_normalizer_def masked_array_def fill_none_setup)
next
  show "masked_array array nrows ncols rowmajor [] [] = Inr (fill_none A)"
    by (simp add: masked_array_def assms)
next
  show "nonzero_values (fill_none A) = filter (\<lambda>v. v \<noteq> 0) (integers_of A)"
    by (rule nonzero_fill_none)
qed

theorem none_cells_are_empty_cells_witness:
  "grid_normalizer (Grid [[Some 1, None], [None, Some 2]]) 2 2 True [] [] =
     Inr ([[1, 0], [0, 2]], 2) \<and>
   grid_normalizer (Grid [[None, None]]) 1 2 True [] [] = Inr ([[0, 0]], 0) \<and>
   set (nonzero_values [[1, 0], [0, 2]]) = {1..int 2}"
proof -
  let ?a = "[[Some 1, None], [None, Some (2::int)]]"
  have A: "?a = array_setup (Grid ?a) 2 2 True" by (simp add: array_setup_def)
  have B: "[[None, None]] = array_setup (Grid [[None, None]]) 1 2 True" by (simp add: array_setup_def)
  have f: "[[1, 0], [0, 2]] = fill_none ?a" by (simp add: fill_none_def none_to_zero_def)
  have s: "set (filter (\<lambda>v. v \<noteq> 0) (integers_of ?a)) = {1..int 2}"
    by (auto simp: integers_of_def)
  have f0: "[[0, 0]] = fill_none [[None, None]]" by (simp add: fill_none_def none_to_zero_def)
  have s0: "set (filter (\<lambda>v. v \<noteq> 0) (integers_of [[None, None]])) = {1..int 0}"
    by (simp add: integers_of_def)
  note t = none_cells_are_empty_cells[OF A, of "[]" "[]" "[[1, 0], [0, 2]]" 2 "[[1, 0], [0, 2]]" 2]
  note t0 = none_cells_are_empty_cells[OF B, of "[]" "[]" "[[0, 0]]" 0 "[[0, 0]]" 0]
  have 1: "grid_normalizer (Grid ?a) 2 2 True [] [] = Inr ([[1, 0], [0, 2]], 2)"
    using t f s by blast
  have 2: "grid_normalizer (Grid [[None, None]]) 1 2 True [] [] = Inr ([[0, 0]], 0)"
    using t0 f0 s0 by blast
  have 3: "set (nonzero_values [[1, 0], [0, 2]]) = {1..int 2}"
    using t 1 by blast
  show ?thesis using 1 2 3 by simp
qed

section \<open>Properties of the panel-strip allocator\<close>







section \<open>Properties of the property resolver\<close>

lemma setitem_keys: "fst ` set (setitem k v ps) = insert k (fst ` set ps)"
  by (induction ps) auto

lemma setitem_distinct: "distinct (map fst ps) \<Longrightarrow> distinct (map fst (setitem k v ps))"
  by (induction ps) (auto simp: setitem_keys)

lemma setitem_map_of: "map_of (setitem k v ps) = (map_of ps)(k \<mapsto> v)"
  by (induction ps) auto

lemma fold_setitem_inner:
  "fold (\<lambda>num. setitem (num - 1) item) nums acc =
   fold (\<lambda>(k, v). setitem k v) (map (\<lambda>num. (num - 1, item)) nums) acc"
  by (induction nums arbitrary: acc) simp_all

lemma unfurl_fold_aux:
  "fold (\<lambda>(nums, item) kw_out. fold (\<lambda>num. setitem (num - 1) item) nums kw_out) d acc =
   fold (\<lambda>(k, v). setitem k v) (entries d) acc"
proof (induction d arbitrary: acc)
  case Nil
  show ?case by (simp add: entries_def)
next
  case (Cons p d)
  obtain nums item where p: "p = (nums, item)" by (cases p)
  have "entries (p # d) = map (\<lambda>num. (num - 1, item)) nums @ entries d"
    by (simp add: entries_def p)
  then show ?case using Cons.IH by (simp add: p fold_setitem_inner)
qed

lemma unfurl_entries: "unfurl d = fold (\<lambda>(k, v). setitem k v) (entries d) []"
  by (simp add: unfurl_def unfurl_fold_aux)

lemma fold_setitem_keys:
  "fst ` set (fold (\<lambda>(k, v). setitem k v) es acc) = fst ` set es \<union> fst ` set acc"
proof (induction es arbitrary: acc)
  case Nil show ?case by simp
next
  case (Cons e es)
  obtain k v where e: "e = (k, v)" by (cases e)
  have "fst ` set (fold (\<lambda>(k, v). setitem k v) es (setitem k v acc)) =
        fst ` set es \<union> insert k (fst ` set acc)"
    unfolding Cons.IH setitem_keys ..
  then show ?case by (simp add: e)
qed

lemma fold_setitem_distinct:
  "distinct (map fst acc) \<Longrightarrow> distinct (map fst (fold (\<lambda>(k, v). setitem k v) es acc))"
  by (induction es arbitrary: acc) (auto simp: setitem_distinct)

lemma fold_setitem_map_of:
  "map_of (fold (\<lambda>(k, v). setitem k v) es acc) = map_of (rev es @ acc)"
proof (induction es arbitrary: acc)
  case Nil show ?case by simp
next
  case (Cons e es)
  obtain k v where e: "e = (k, v)" by (cases e)
  have "map_of (rev es @ setitem k v acc) = map_of (rev es @ [(k, v)] @ acc)"
    by (simp add: map_of_append setitem_map_of)
  then show ?case using Cons.IH by (simp add: e)
qed

lemma entries_keys: "fst ` set (entries d) = (\<lambda>i. i - 1) ` set (mentioned_ids d)"
  by (induction d) (auto simp: entries_def mentioned_ids_def image_Un image_image)

lemma unfurl_keys: "set (map fst (unfurl d)) = (\<lambda>i. i - 1) ` set (mentioned_ids d)"
  by (simp add: unfurl_entries fold_setitem_keys entries_keys)

lemma unfurl_distinct: "distinct (map fst (unfurl d))"
  by (simp add: unfurl_entries fold_setitem_distinct)

lemma unfurl_map_of: "map_of (unfurl d) = map_of (rev (entries d))"
  by (simp add: unfurl_entries fold_setitem_map_of)

lemma set_upt_int0: "set (map int [0..<n]) = {0..<int n}"
proof (rule set_eqI)
  fix x :: int
  show "x \<in> set (map int [0..<n]) \<longleftrightarrow> x \<in> {0..<int n}"
  proof
    assume "x \<in> set (map int [0..<n])" then show "x \<in> {0..<int n}" by auto
  next
    assume h: "x \<in> {0..<int n}"
    then have "nat x \<in> set [0..<n]" "x = int (nat x)" by auto
    then show "x \<in> set (map int [0..<n])" unfolding set_map by (rule_tac image_eqI)
  qed
qed

lemma shift_span: "(\<lambda>i. i - 1) ` S = {0..<int n} \<longleftrightarrow> S = {1..int n}"
proof
  assume h: "(\<lambda>i. i - 1) ` S = {0..<int n}"
  show "S = {1..int n}"
  proof (rule set_eqI)
    fix x
    show "x \<in> S \<longleftrightarrow> x \<in> {1..int n}"
    proof
      assume "x \<in> S"
      then have "x - 1 \<in> {0..<int n}" using h by blast
      then show "x \<in> {1..int n}" by simp
    next
      assume "x \<in> {1..int n}"
      then have "x - 1 \<in> (\<lambda>i. i - 1) ` S" using h by simp
      then obtain y where "y \<in> S" "x - 1 = y - 1" by blast
      then show "x \<in> S" by simp
    qed
  qed
next
  assume "S = {1..int n}"
  then show "(\<lambda>i. i - 1) ` S = {0..<int n}"
    by (auto simp: image_iff intro: bexI[of _ "x + 1" for x])
qed

lemma named_ids:
  "map (\<lambda>i. i + 1) (sort (map fst (unfurl d))) = np_unique (mentioned_ids d)"
proof -
  let ?l = "map (\<lambda>i. i + 1) (sort (map fst (unfurl d)))"
  have "sorted ?l"
    by (simp add: sorted_map sorted_wrt_map)
  moreover have "distinct ?l"
  proof -
    have "distinct (sort (map fst (unfurl d)))"
      using unfurl_distinct[of d] by (simp only: distinct_sort)
    moreover have "inj_on (\<lambda>i::int. i + 1) (set (sort (map fst (unfurl d))))"
      by (simp add: inj_on_def)
    ultimately show ?thesis unfolding distinct_map by blast
  qed
  moreover have "set ?l = set (mentioned_ids d)"
  proof -
    have "set ?l = (\<lambda>i. i + 1) ` (fst ` set (unfurl d))" by (simp add: image_image)
    also have "\<dots> = (\<lambda>i. i + 1) ` ((\<lambda>i. i - 1) ` set (mentioned_ids d))"
      using unfurl_keys[of d] by simp
    also have "\<dots> = set (mentioned_ids d)" by (simp add: image_image)
    finally show ?thesis .
  qed
  ultimately show ?thesis
    using np_unique_props[of "mentioned_ids d"] by (metis sorted_distinct_set_unique)
qed

lemma axes_dict_Dict:
  "axes_dict n (Dict d) =
     (if set (mentioned_ids d) = {1..int n} then Inr (unfurl d)
      else Inl (InvalidPropertySpec (np_unique (mentioned_ids d))))"
proof -
  have "set (map int [0..<n]) = set (map fst (unfurl d)) \<longleftrightarrow> set (mentioned_ids d) = {1..int n}"
    unfolding set_upt_int0 unfurl_keys using shift_span[of "set (mentioned_ids d)" n] by auto
  then show ?thesis
    by (simp add: axes_dict_def Let_def named_ids del: set_map)
qed

lemma absent_ids_nonempty:
  "absent_ids n d \<noteq> [] \<Longrightarrow> set (mentioned_ids d) \<noteq> {1..int n}"
proof
  assume a: "absent_ids n d \<noteq> []" and s: "set (mentioned_ids d) = {1..int n}"
  from a obtain i where "i \<in> set (absent_ids n d)" by (cases "absent_ids n d") auto
  then have "i \<in> set (map int [1..<n + 1])" "i \<notin> set (mentioned_ids d)"
    by (auto simp: absent_ids_def mentioned_ids_def simp del: upt_Suc)
  then show False using s set_upt_int[of n] by simp
qed

text \<open>
  Claim C6, as the code has it. When the panel numbers the keys mention are exactly
  \<open>1..N\<close>, the resolver returns one entry for each position \<open>0..N-1\<close>, and the entry of a
  position is the value of the last item that mentions its panel. When some panel number
  in \<open>1..N\<close> is mentioned by no key, the resolver fails with \<open>InvalidPropertySpec\<close>, and the
  numbers the error names are the ones the keys do mention, in ascending order (the
  message of line 159 reads 'only has properties for axes ...').
\<close>

theorem axes_dict_expansion:
  "(set (mentioned_ids d) = {1..int n} \<longrightarrow>
      axes_dict n (Dict d) = Inr (unfurl d) \<and>
      distinct (map fst (unfurl d)) \<and>
      set (map fst (unfurl d)) = {0..<int n} \<and>
      map_of (unfurl d) = map_of (rev (entries d))) \<and>
   (absent_ids n d \<noteq> [] \<longrightarrow>
      axes_dict n (Dict d) = Inl (InvalidPropertySpec (np_unique (mentioned_ids d))))"
proof (intro conjI impI)
  assume s: "set (mentioned_ids d) = {1..int n}"
  show "axes_dict n (Dict d) = Inr (unfurl d)" using s by (simp add: axes_dict_Dict)
  show "distinct (map fst (unfurl d))" by (rule unfurl_distinct)
  show "set (map fst (unfurl d)) = {0..<int n}"
    unfolding unfurl_keys using s shift_span[of "set (mentioned_ids d)" n] by simp
  show "map_of (unfurl d) = map_of (rev (entries d))" by (rule unfurl_map_of)
next
  assume "absent_ids n d \<noteq> []"
  then have "set (mentioned_ids d) \<noteq> {1..int n}" by (rule absent_ids_nonempty)
  then show "axes_dict n (Dict d) = Inl (InvalidPropertySpec (np_unique (mentioned_ids d)))"
    by (simp add: axes_dict_Dict)
qed

theorem axes_dict_expansion_witness:
  "axes_dict 3 (Dict [([1], ''a''), ([2, 3], ''b'')]) = Inr [(0, ''a''), (1, ''b''), (2, ''b'')] \<and>
   axes_dict 3 (Dict [([1], ''a''), ([2], ''b'')]) = Inl (InvalidPropertySpec [1, 2])"
proof -
  have s: "set (mentioned_ids [([1], ''a''), ([2, 3], ''b'')]) = {1..int 3}"
    by (auto simp: mentioned_ids_def)
  have u: "unfurl [([1], ''a''), ([2, 3], ''b'')] = [(0, ''a''), (1, ''b''), (2, ''b'')]"
    by (simp add: unfurl_def)
  have a: "absent_ids 3 [([1], ''a''), ([2], ''b'')] \<noteq> []"
    by code_simp
  have m: "np_unique (mentioned_ids [([1::int], ''a''), ([2], ''b'')]) = [1, 2]"
    by (simp add: np_unique_def mentioned_ids_def)
  show ?thesis
    using axes_dict_expansion[of "[([1], ''a''), ([2, 3], ''b'')]" 3]
      axes_dict_expansion[of "[([1], ''a''), ([2], ''b'')]" 3] s u a m
    by metis
qed

text \<open>
  Claim C6 as stated fails: over three panels the dictionary \<open>{1: 'a', 2: 'b'}\<close> leaves out
  panel 3, and the error names the panels 1 and 2.
\<close>

theorem absent_ids_named_counterexample:
  "axes_dict 3 (Dict [([1], ''a''), ([2], ''b'')]) = Inl (InvalidPropertySpec [1, 2]) \<and>
   absent_ids 3 [([1], ''a''), ([2], ''b'')] = [3]"
  by code_simp

section \<open>Properties of the list of axes\<close>










lemma iterate_fan_out:
  assumes "list_all callable (map (\<lambda>ax. ax attr) self)"
  shows "iterate self attr args ret w =
           Inr (ret @ non_null (fst (fan_out (methods_of self attr) args w)),
                snd (fan_out (methods_of self attr) args w))"
  using assms
proof (induction self arbitrary: ret w)
  case Nil
  show ?case by (simp add: methods_of_def non_null_def)
next
  case (Cons ax rest)
  from Cons.prems obtain f where f: "ax attr = Some (Method f)"
    by (auto simp: callable_def split: option.splits attribute.splits)
  from Cons.prems have rest: "list_all callable (map (\<lambda>ax. ax attr) rest)" by simp
  obtain res w' where r: "f args w = (res, w')" by (cases "f args w")
  have m: "methods_of (ax # rest) attr = f # methods_of rest attr"
    by (simp add: methods_of_def f)
  obtain ress w'' where fo: "fan_out (methods_of rest attr) args w' = (ress, w'')"
    by (cases "fan_out (methods_of rest attr) args w'")
  show ?case
    using Cons.IH[OF rest, of "case res of None \<Rightarrow> ret | Some r \<Rightarrow> ret @ [r]" w']
    by (cases res) (simp_all add: f r m fo non_null_def)
qed

lemma unwrap_cases:
  "unwrap [] = Nothing" "unwrap [r] = Single r" "2 \<le> length rs \<Longrightarrow> unwrap rs = Several rs"
  by (auto simp: unwrap_def)

lemma getattr_mixed:
  assumes "ax1 \<in> set self" "callable (ax1 attr)" "ax2 \<in> set self" "\<not> callable (ax2 attr)"
  shows "getattr self attr = Inl NoMethod \<or> getattr self attr = Inl MixedMethods"
proof -
  have "\<not> list_all callable (map (\<lambda>ax. ax attr) self)"
    using assms(3,4) by (auto simp: list_all_iff)
  moreover have "\<not> list_all (\<lambda>v. \<not> callable v) (map (\<lambda>ax. ax attr) self)"
    using assms(1,2) by (auto simp: list_all_iff)
  ultimately show ?thesis by (simp add: getattr_def Let_def)
qed

text \<open>
  On a list that is not empty the broadcast works as described. When the name is a method
  of every element, \<open>getattr\<close> returns the function \<open>iterator\<close>; a call of it calls the
  method of each element in the order of the list, each call on the state the one before
  left, keeps the results that are not \<^verbatim>\<open>None\<close> in that order, and returns them through
  \<open>unwrap\<close>: nothing for no result, the result itself for one, the list for two or more.
  When the name is callable on one element and not callable on another, \<open>getattr\<close> fails
  (with the error of line 65 if some element has no such attribute, else with the one of
  line 79).
\<close>

lemma broadcast_on_nonempty_list:
  "(self \<noteq> [] \<and> list_all callable (map (\<lambda>ax. ax attr) self) \<longrightarrow>
      getattr self attr = Inr (Broadcast (iterator self attr)) \<and>
      iterator self attr args w =
        Inr (unwrap (non_null (fst (fan_out (methods_of self attr) args w))),
             snd (fan_out (methods_of self attr) args w)) \<and>
      length (methods_of self attr) = length self) \<and>
   unwrap [] = Nothing \<and> unwrap [r] = Single r \<and>
   (2 \<le> length rs \<longrightarrow> unwrap rs = Several rs) \<and>
   (ax1 \<in> set self \<and> callable (ax1 attr) \<and> ax2 \<in> set self \<and> \<not> callable (ax2 attr) \<longrightarrow>
      getattr self attr = Inl NoMethod \<or> getattr self attr = Inl MixedMethods)"
proof (intro conjI impI)
  assume h: "self \<noteq> [] \<and> list_all callable (map (\<lambda>ax. ax attr) self)"
  then have c: "list_all callable (map (\<lambda>ax. ax attr) self)" and ne: "self \<noteq> []" by simp_all
  from c have n: "None \<notin> set (map (\<lambda>ax. ax attr) self)"
    by (auto simp: list_all_iff callable_def)
  show "getattr self attr = Inr (Broadcast (iterator self attr))"
    using c n ne by (simp add: getattr_def Let_def)
  show "iterator self attr args w =
        Inr (unwrap (non_null (fst (fan_out (methods_of self attr) args w))),
             snd (fan_out (methods_of self attr) args w))"
    by (simp add: iterator_def iterate_fan_out[OF c])
  show "length (methods_of self attr) = length self"
    using c
  proof (induction self)
    case Nil show ?case by (simp add: methods_of_def)
  next
    case (Cons ax rest)
    then obtain f where "ax attr = Some (Method f)"
      by (auto simp: callable_def split: option.splits attribute.splits)
    with Cons show ?case by (simp add: methods_of_def)
  qed
next
  show "unwrap [] = Nothing" "unwrap [r] = Single r" by (simp_all add: unwrap_cases)
next
  assume "2 \<le> length rs" then show "unwrap rs = Several rs" by (rule unwrap_cases)
next
  assume "ax1 \<in> set self \<and> callable (ax1 attr) \<and> ax2 \<in> set self \<and> \<not> callable (ax2 attr)"
  then show "getattr self attr = Inl NoMethod \<or> getattr self attr = Inl MixedMethods"
    using getattr_mixed by blast
qed

lemma broadcast_on_nonempty_list_example:
  "iterator [ax_a, ax_b, ax_c] ''m'' (10::nat) ([]::nat list) = Inr (Several [11, 13], [1, 2, 3]) \<and>
   iterator [ax_a, ax_b] ''m'' (10::nat) ([]::nat list) = Inr (Single 11, [1, 2]) \<and>
   getattr [ax_a, ax_b] ''v'' = Inl MixedMethods"
proof -
  have c3: "[ax_a, ax_b, ax_c] \<noteq> [] \<and> list_all callable (map (\<lambda>ax. ax ''m'') [ax_a, ax_b, ax_c])"
    by (simp add: callable_def ax_a_def ax_b_def ax_c_def)
  have c2: "[ax_a, ax_b] \<noteq> [] \<and> list_all callable (map (\<lambda>ax. ax ''m'') [ax_a, ax_b])"
    by (simp add: callable_def ax_a_def ax_b_def)
  have f3: "fan_out (methods_of [ax_a, ax_b, ax_c] ''m'') 10 [] = ([Some 11, None, Some 13], [1, 2, 3])"
    by (simp add: methods_of_def ax_a_def ax_b_def ax_c_def)
  have f2: "fan_out (methods_of [ax_a, ax_b] ''m'') 10 [] = ([Some 11, None], [1, 2])"
    by (simp add: methods_of_def ax_a_def ax_b_def)
  have u3: "unwrap (non_null [Some 11, None, Some (13::nat)]) = Several [11, 13]"
    by (simp add: unwrap_def non_null_def)
  have u2: "unwrap (non_null [Some (11::nat), None]) = Single 11"
    by (simp add: unwrap_def non_null_def)
  have mix: "ax_b \<in> set [ax_a, ax_b] \<and> callable (ax_b ''v'') \<and> ax_a \<in> set [ax_a, ax_b] \<and> \<not> callable (ax_a ''v'')"
    by (simp add: callable_def ax_a_def ax_b_def)
  have nn: "getattr [ax_a, ax_b] ''v'' \<noteq> Inl NoMethod"
    by (simp add: getattr_def Let_def callable_def ax_a_def ax_b_def)
  have a: "iterator [ax_a, ax_b, ax_c] ''m'' (10::nat) ([]::nat list) = Inr (Several [11, 13], [1, 2, 3])"
  proof -
    from broadcast_on_nonempty_list[of "[ax_a, ax_b, ax_c]" "''m''" "10::nat" "[]::nat list" "0::nat" "[]::nat list" ax_a ax_a] c3
    have "iterator [ax_a, ax_b, ax_c] ''m'' (10::nat) ([]::nat list) =
            Inr (unwrap (non_null (fst (fan_out (methods_of [ax_a, ax_b, ax_c] ''m'') 10 []))),
                 snd (fan_out (methods_of [ax_a, ax_b, ax_c] ''m'') 10 []))"
      by blast
    then show ?thesis by (simp only: f3 u3 fst_conv snd_conv)
  qed
  have b: "iterator [ax_a, ax_b] ''m'' (10::nat) ([]::nat list) = Inr (Single 11, [1, 2])"
  proof -
    from broadcast_on_nonempty_list[of "[ax_a, ax_b]" "''m''" "10::nat" "[]::nat list" "0::nat" "[]::nat list" ax_a ax_a] c2
    have "iterator [ax_a, ax_b] ''m'' (10::nat) ([]::nat list) =
            Inr (unwrap (non_null (fst (fan_out (methods_of [ax_a, ax_b] ''m'') 10 []))),
                 snd (fan_out (methods_of [ax_a, ax_b] ''m'') 10 []))"
      by blast
    then show ?thesis by (simp only: f2 u2 fst_conv snd_conv)
  qed
  have c: "getattr [ax_a, ax_b] ''v'' = Inl MixedMethods"
    using broadcast_on_nonempty_list[of "[ax_a, ax_b]" "''v''" "10::nat" "[]::nat list" "0::nat" "[]::nat list" ax_b ax_a] mix nn by blast
  show ?thesis using a b c by simp
qed

text \<open>
  Claim C8, where the code departs from it. A slice past the end of a list of two axes is
  an empty list of axes (\<^verbatim>\<open>axs[2:]\<close>), and so is the list of a figure with no panel. On
  the empty list no name reaches \<open>iterator\<close>: \<open>getattr\<close> fails with \<^verbatim>\<open>IndexError\<close> at
  line 67, whereas the loop of lines 69-74, entered with the empty list, makes no call and
  returns nothing.
\<close>

theorem broadcast_on_empty_list:
  "getitem [ax_a, ax_b] (Slice (Some 2) None None) = Inr (Axes_list []) \<and>
   getattr ([] :: (nat, nat, nat list) axes list) ''m'' = Inl IndexError \<and>
   iterator ([] :: (nat, nat, nat list) axes list) ''m'' 10 [] = Inr (Nothing, [])"
  by (simp add: getitem_def list_getitem_def is_slice_def slice_positions_def clip_def Let_def
      getattr_def iterator_def unwrap_def)

section \<open>Properties of the extent calculator\<close>

lemma set_np_where:
  "set (np_where a i) = {(r, c). r < length a \<and> c < length (a ! r) \<and> a ! r ! c = i}"
  by (auto simp: np_where_def)

lemma set_cells: "set (cells a) = {(r, c). r < length a \<and> c < length (a ! r)}"
  by (auto simp: cells_def)

lemma np_where_cells:
  "rc \<in> set (np_where a i) \<longleftrightarrow> rc \<in> set (cells a) \<and> cell_at a rc = i"
  by (cases rc) (auto simp: set_np_where set_cells cell_at_def)

lemma cells_concat: "rc \<in> set (cells a) \<Longrightarrow> cell_at a rc \<in> set (concat a)"
proof -
  assume "rc \<in> set (cells a)"
  then have "fst rc < length a" "snd rc < length (a ! fst rc)"
    by (auto simp: set_cells)
  then have "a ! fst rc \<in> set a" "a ! fst rc ! snd rc \<in> set (a ! fst rc)" by simp_all
  then show ?thesis unfolding cell_at_def set_concat by blast
qed

lemma concat_cells: "v \<in> set (concat a) \<Longrightarrow> \<exists>rc \<in> set (cells a). cell_at a rc = v"
proof -
  assume "v \<in> set (concat a)"
  then obtain row where "row \<in> set a" "v \<in> set row" by auto
  then obtain r c where "r < length a" "a ! r = row" "c < length row" "row ! c = v"
    by (auto simp: in_set_conv_nth)
  then have "(r, c) \<in> set (cells a)" "cell_at a (r, c) = v"
    by (auto simp: set_cells cell_at_def)
  then show ?thesis by blast
qed

lemma positive_ids:
  assumes "enforce_rule a = Inr n"
  shows "filter (\<lambda>i. 0 < i) (np_unique (concat a)) = map int [1..<n + 1]"
proof -
  let ?l = "filter (\<lambda>i. 0 < i) (np_unique (concat a))"
  have nz: "set (nonzero_values a) = {1..int n}" using assms by (rule enforce_rule_Inr)
  have "set ?l = {v \<in> set (concat a). 0 < v}" by (auto simp: np_unique_props)
  also have "\<dots> = {1..int n}"
  proof (rule set_eqI)
    fix v
    show "v \<in> {v \<in> set (concat a). 0 < v} \<longleftrightarrow> v \<in> {1..int n}"
    proof
      assume "v \<in> {v \<in> set (concat a). 0 < v}"
      then have "v \<in> set (nonzero_values a)" by (simp add: nonzero_values_def)
      then show "v \<in> {1..int n}" using nz by simp
    next
      assume "v \<in> {1..int n}"
      then have "v \<in> set (nonzero_values a)" "0 < v" using nz by auto
      then show "v \<in> {v \<in> set (concat a). 0 < v}" by (simp add: nonzero_values_def)
    qed
  qed
  finally have "set ?l = set (map int [1..<n + 1])" by (simp only: set_upt_int)
  moreover have "sorted ?l" by (simp add: sorted_wrt_filter np_unique_props)
  moreover have "distinct ?l" by (simp add: np_unique_props)
  ultimately show ?thesis
    using sorted_upt_int[of n] by (metis sorted_distinct_set_unique)
qed

lemma axes_ids_valid:
  assumes "enforce_rule a = Inr n"
  shows "length (axes_ids a) = n"
    and "k < n \<Longrightarrow> axes_ids a ! k = np_where a (int k + 1)"
proof -
  have e: "axes_ids a = map (np_where a) (map int [1..<n + 1])"
    by (simp only: axes_ids_def positive_ids[OF assms])
  show "length (axes_ids a) = n" by (simp add: e del: upt_Suc)
  assume "k < n"
  then have "map int [1..<n + 1] ! k = int k + 1"
    by (simp del: upt_Suc add: nth_upt)
  then show "axes_ids a ! k = np_where a (int k + 1)"
    using \<open>k < n\<close> by (simp add: e add.commute del: upt_Suc)
qed

lemma panel_has_cell:
  assumes "enforce_rule a = Inr n" "k < n"
  shows "np_where a (int k + 1) \<noteq> []"
proof -
  have "int k + 1 \<in> {1..int n}" using assms(2) by simp
  then have "int k + 1 \<in> set (nonzero_values a)" using enforce_rule_Inr[OF assms(1)] by simp
  then have "int k + 1 \<in> set (concat a)" by (simp add: nonzero_values_def)
  then obtain rc where "rc \<in> set (cells a)" "cell_at a rc = int k + 1"
    using concat_cells by blast
  then have "rc \<in> set (np_where a (int k + 1))" by (simp add: np_where_cells)
  then show ?thesis by auto
qed

lemma yrange_nth:
  assumes "enforce_rule a = Inr n" "k < n"
  shows "yrange a ro ! k =
           (ro + Min (fst ` set (np_where a (int k + 1))),
            ro + (Max (fst ` set (np_where a (int k + 1))) + 1))"
  using axes_ids_valid[OF assms(1)] assms(2) by (simp add: yrange_def)

lemma xrange_nth:
  assumes "enforce_rule a = Inr n" "k < n"
  shows "xrange a co ! k =
           (co + Min (snd ` set (np_where a (int k + 1))),
            co + (Max (snd ` set (np_where a (int k + 1))) + 1))"
  using axes_ids_valid[OF assms(1)] assms(2) by (simp add: xrange_def)

lemma extent_tables_length:
  assumes "enforce_rule a = Inr n"
  shows "length (yrange a ro) = n" "length (xrange a co) = n"
  using axes_ids_valid(1)[OF assms] by (simp_all add: yrange_def xrange_def)

text \<open>
  Claim C4, as the code has it. In a valid canonical arrangement with \<open>n\<close> panels, the row
  extent and the column extent of panel \<open>k + 1\<close> (row \<open>k\<close> of the two tables) form a box
  that contains every cell bearing that number, and each of the four bounds is attained by
  a cell bearing that number: it is the bounding box of the panel's cells, shifted by the
  offsets. Nothing is said of the other cells of the box.
\<close>

theorem extent_is_bounding_box:
  assumes "enforce_rule a = Inr n" and "k < n"
  shows "(\<forall>rc \<in> set (cells a). cell_at a rc = int k + 1 \<longrightarrow>
            in_box ro co (yrange a ro ! k) (xrange a co ! k) rc) \<and>
         (\<exists>rc \<in> set (cells a). cell_at a rc = int k + 1 \<and> ro + fst rc = fst (yrange a ro ! k)) \<and>
         (\<exists>rc \<in> set (cells a). cell_at a rc = int k + 1 \<and> ro + fst rc + 1 = snd (yrange a ro ! k)) \<and>
         (\<exists>rc \<in> set (cells a). cell_at a rc = int k + 1 \<and> co + snd rc = fst (xrange a co ! k)) \<and>
         (\<exists>rc \<in> set (cells a). cell_at a rc = int k + 1 \<and> co + snd rc + 1 = snd (xrange a co ! k))"
proof -
  let ?w = "np_where a (int k + 1)"
  let ?R = "fst ` set ?w" and ?C = "snd ` set ?w"
  have ne: "?w \<noteq> []" using assms by (rule panel_has_cell)
  then have neR: "?R \<noteq> {}" and neC: "?C \<noteq> {}" by auto
  have finR: "finite ?R" and finC: "finite ?C" by simp_all
  have y: "yrange a ro ! k = (ro + Min ?R, ro + (Max ?R + 1))" using assms by (rule yrange_nth)
  have x: "xrange a co ! k = (co + Min ?C, co + (Max ?C + 1))" using assms by (rule xrange_nth)
  have cover: "\<forall>rc \<in> set (cells a). cell_at a rc = int k + 1 \<longrightarrow>
                 in_box ro co (yrange a ro ! k) (xrange a co ! k) rc"
  proof (intro ballI impI)
    fix rc assume "rc \<in> set (cells a)" "cell_at a rc = int k + 1"
    then have m: "rc \<in> set ?w" by (simp add: np_where_cells)
    then have "fst rc \<in> ?R" "snd rc \<in> ?C" by auto
    then have "Min ?R \<le> fst rc" "fst rc \<le> Max ?R" "Min ?C \<le> snd rc" "snd rc \<le> Max ?C"
      using finR finC by (auto intro: Min_le Max_ge)
    then show "in_box ro co (yrange a ro ! k) (xrange a co ! k) rc"
      by (simp add: in_box_def y x)
  qed
  have pickR: "\<exists>rc \<in> set (cells a). cell_at a rc = int k + 1 \<and> fst rc = v" if "v \<in> ?R" for v
  proof -
    from that obtain rc where "rc \<in> set ?w" "fst rc = v" by auto
    then show ?thesis unfolding np_where_cells by blast
  qed
  have pickC: "\<exists>rc \<in> set (cells a). cell_at a rc = int k + 1 \<and> snd rc = v" if "v \<in> ?C" for v
  proof -
    from that obtain rc where "rc \<in> set ?w" "snd rc = v" by auto
    then show ?thesis unfolding np_where_cells by blast
  qed
  have e1: "\<exists>rc \<in> set (cells a). cell_at a rc = int k + 1 \<and> fst rc = Min ?R"
    by (rule pickR[OF Min_in[OF finR neR]])
  have e2: "\<exists>rc \<in> set (cells a). cell_at a rc = int k + 1 \<and> fst rc = Max ?R"
    by (rule pickR[OF Max_in[OF finR neR]])
  have e3: "\<exists>rc \<in> set (cells a). cell_at a rc = int k + 1 \<and> snd rc = Min ?C"
    by (rule pickC[OF Min_in[OF finC neC]])
  have e4: "\<exists>rc \<in> set (cells a). cell_at a rc = int k + 1 \<and> snd rc = Max ?C"
    by (rule pickC[OF Max_in[OF finC neC]])
  show ?thesis using cover e1 e2 e3 e4 by (simp add: y x)
qed

theorem extent_is_bounding_box_witness:
  "enforce_rule [[1, 1], [1, 2]] = Inr 2 \<and>
   (1, 0) \<in> set (cells [[1, 1], [1, 2]]) \<and>
   cell_at [[1, 1], [1, 2]] (1, 0) = int 0 + 1 \<and>
   in_box 1 0 (yrange [[1, 1], [1, 2]] 1 ! 0) (xrange [[1, 1], [1, 2]] 0 ! 0) (1, 0)"
proof -
  have e: "enforce_rule [[1, 1], [1, 2]] = Inr 2"
    by (simp add: enforce_rule_def nonzero_values_def np_unique_def Let_def)
  have k: "(0::nat) < 2" by simp
  have c: "(1, 0) \<in> set (cells [[1, 1], [1, 2]])" "cell_at [[1, 1], [1, 2]] (1, 0) = int 0 + 1"
    by (simp_all add: cells_def cell_at_def)
  show ?thesis using extent_is_bounding_box[OF e k, of 1 0] e c by blast
qed

text \<open>
  Claim C4 as stated fails: in \<open>[[1, 1], [1, 2]]\<close> the cells of panel 1 form an L, its box
  is the whole grid, and the cell \<open>(1, 1)\<close> of the box bears the number 2.
\<close>

theorem extent_excludes_counterexample:
  "enforce_rule [[1, 1], [1, 2]] = Inr 2 \<and>
   (1, 1) \<in> set (cells [[1, 1], [1, 2]]) \<and>
   cell_at [[1, 1], [1, 2]] (1, 1) = 2 \<and>
   in_box 0 0 (yrange [[1, 1], [1, 2]] 0 ! 0) (xrange [[1, 1], [1, 2]] 0 ! 0) (1, 1)"
  by (simp add: enforce_rule_def nonzero_values_def np_unique_def Let_def cells_def cell_at_def
      in_box_def yrange_def xrange_def axes_ids_def np_where_def)

section \<open>Properties of the grouper\<close>

lemma xgroup_step_generic: "xgroup_step xr yr = group_step xr (x_base_of yr) (x_sorted_of yr)"
  by (rule ext, rule ext) (simp add: xgroup_step_def group_step_def x_base_of_def x_sorted_of_def Let_def)

lemma ygroup_step_generic: "ygroup_step xr yr = group_step yr (y_base_of xr) (y_sorted_of xr)"
  by (rule ext, rule ext) (simp add: ygroup_step_def group_step_def y_base_of_def y_sorted_of_def Let_def)

lemma set_matching_axes:
  "set (matching_axes rng i) = {j. j < length rng \<and> rng ! j = rng ! i}"
  by (auto simp: matching_axes_def)

lemma matching_axes_sorted: "sorted (matching_axes rng i)" "distinct (matching_axes rng i)"
  by (simp_all add: matching_axes_def sorted_wrt_filter)

lemma group_loop:
  assumes "n \<le> length rng"
  shows "fold (group_step rng base_of sorted_of) [0..<n] no_groups =
           \<lparr>groups = map (matching_axes rng) (leaders rng n),
            groups_base = map (\<lambda>i. base_of (matching_axes rng i)) (leaders rng n),
            groups_sorted = map (\<lambda>i. sorted_of (matching_axes rng i)) (leaders rng n),
            grouped = concat (map (matching_axes rng) [0..<n])\<rparr>"
  using assms
proof (induction n)
  case 0
  show ?case by (simp add: no_groups_def leaders_def)
next
  case (Suc n)
  then have n: "n < length rng" by simp
  have "n \<notin> set (concat (map (matching_axes rng) [0..<n])) \<longleftrightarrow> first_of_class rng n"
    using n by (auto simp: set_matching_axes first_of_class_def)
  then have l: "leaders rng (Suc n) =
      leaders rng n @ (if n \<notin> set (concat (map (matching_axes rng) [0..<n])) \<and>
                           1 < length (matching_axes rng n) then [n] else [])"
    by (simp add: leaders_def)
  have "fold (group_step rng base_of sorted_of) [0..<Suc n] no_groups =
        group_step rng base_of sorted_of n (fold (group_step rng base_of sorted_of) [0..<n] no_groups)"
    by simp
  also have "\<dots> = group_step rng base_of sorted_of n
           \<lparr>groups = map (matching_axes rng) (leaders rng n),
            groups_base = map (\<lambda>i. base_of (matching_axes rng i)) (leaders rng n),
            groups_sorted = map (\<lambda>i. sorted_of (matching_axes rng i)) (leaders rng n),
            grouped = concat (map (matching_axes rng) [0..<n])\<rparr>"
    using Suc by simp
  also have "\<dots> = \<lparr>groups = map (matching_axes rng) (leaders rng (Suc n)),
            groups_base = map (\<lambda>i. base_of (matching_axes rng i)) (leaders rng (Suc n)),
            groups_sorted = map (\<lambda>i. sorted_of (matching_axes rng i)) (leaders rng (Suc n)),
            grouped = concat (map (matching_axes rng) [0..<Suc n])\<rparr>"
    unfolding l by (simp add: group_step_def Let_def)
  finally show ?case .
qed

lemma leaders_props:
  "distinct (leaders rng n)" "sorted (leaders rng n)"
  "i \<in> set (leaders rng n) \<longleftrightarrow> i < n \<and> first_of_class rng i \<and> 1 < length (matching_axes rng i)"
  by (auto simp: leaders_def sorted_wrt_filter)

lemma leader_classes_disjoint:
  assumes "first_of_class rng i" "first_of_class rng i'" "i \<noteq> i'"
  shows "set (matching_axes rng i) \<inter> set (matching_axes rng i') = {}"
proof (rule ccontr)
  assume "set (matching_axes rng i) \<inter> set (matching_axes rng i') \<noteq> {}"
  then obtain j where "rng ! j = rng ! i" "rng ! j = rng ! i'"
    by (auto simp: set_matching_axes)
  then have e: "rng ! i = rng ! i'" by simp
  show False
  proof (cases "i < i'")
    case True
    with assms(2) e show False by (auto simp: first_of_class_def)
  next
    case False
    with assms(3) have "i' < i" by simp
    with assms(1) e show False by (auto simp: first_of_class_def)
  qed
qed

lemma class_has_leader:
  assumes "j < length rng"
  shows "\<exists>i \<le> j. first_of_class rng i \<and> rng ! i = rng ! j"
proof -
  define i where "i = (LEAST i. rng ! i = rng ! j)"
  have a: "rng ! i = rng ! j" unfolding i_def by (rule LeastI[of _ j]) simp
  have b: "i \<le> j" unfolding i_def by (rule Least_le) simp
  have "first_of_class rng i"
    unfolding first_of_class_def
  proof
    fix k assume "k \<in> set [0..<i]"
    then have "k < i" by simp
    then have "rng ! k \<noteq> rng ! j" unfolding i_def by (rule not_less_Least)
    then show "rng ! k \<noteq> rng ! i" using a by simp
  qed
  with a b show ?thesis by blast
qed

lemma matching_axes_long:
  assumes "i < length rng"
  shows "1 < length (matching_axes rng i) \<longleftrightarrow> (\<exists>j < length rng. j \<noteq> i \<and> rng ! j = rng ! i)"
proof -
  have c: "length (matching_axes rng i) = card (set (matching_axes rng i))"
    by (simp add: distinct_card matching_axes_sorted)
  have i: "i \<in> set (matching_axes rng i)" using assms by (simp add: set_matching_axes)
  show ?thesis
  proof
    assume "1 < length (matching_axes rng i)"
    then have "card (set (matching_axes rng i)) \<noteq> 1" "set (matching_axes rng i) \<noteq> {}"
      using c i by auto
    then have "set (matching_axes rng i) \<noteq> {i}" by auto
    with i obtain j where "j \<in> set (matching_axes rng i)" "j \<noteq> i" by blast
    then show "\<exists>j < length rng. j \<noteq> i \<and> rng ! j = rng ! i" by (auto simp: set_matching_axes)
  next
    assume "\<exists>j < length rng. j \<noteq> i \<and> rng ! j = rng ! i"
    then obtain j where "j \<in> set (matching_axes rng i)" "j \<noteq> i" by (auto simp: set_matching_axes)
    with i have "{i, j} \<subseteq> set (matching_axes rng i)" by simp
    then have "card {i, j} \<le> card (set (matching_axes rng i))" by (intro card_mono) simp_all
    with \<open>j \<noteq> i\<close> show "1 < length (matching_axes rng i)" using c by simp
  qed
qed


lemma argmax_scan_props:
  assumes "length pre = k" "best < k" "bestv = pre ! best"
    and "\<forall>j < k. pre ! j \<le> bestv" and "\<forall>j < best. pre ! j < bestv"
  shows "argmax_scan xs k best bestv < length (pre @ xs) \<and>
         (\<forall>j < length (pre @ xs). (pre @ xs) ! j \<le> (pre @ xs) ! argmax_scan xs k best bestv) \<and>
         (\<forall>j < argmax_scan xs k best bestv. (pre @ xs) ! j < (pre @ xs) ! argmax_scan xs k best bestv)"
  using assms
proof (induction xs arbitrary: pre k best bestv)
  case Nil
  then show ?case by simp
next
  case (Cons x xs)
  have len: "length (pre @ [x]) = Suc k" using Cons.prems(1) by simp
  show ?case
  proof (cases "bestv < x")
    case True
    have "argmax_scan xs (Suc k) k x < length ((pre @ [x]) @ xs) \<and>
         (\<forall>j < length ((pre @ [x]) @ xs). ((pre @ [x]) @ xs) ! j \<le> ((pre @ [x]) @ xs) ! argmax_scan xs (Suc k) k x) \<and>
         (\<forall>j < argmax_scan xs (Suc k) k x. ((pre @ [x]) @ xs) ! j < ((pre @ [x]) @ xs) ! argmax_scan xs (Suc k) k x)"
    proof (rule Cons.IH[OF len])
      show "k < Suc k" by simp
      show "x = (pre @ [x]) ! k" using Cons.prems(1) by (simp add: nth_append)
      show "\<forall>j<Suc k. (pre @ [x]) ! j \<le> x"
        using Cons.prems(1,4) True by (auto simp: nth_append less_Suc_eq)
      show "\<forall>j<k. (pre @ [x]) ! j < x"
        using Cons.prems(1,4) True by (auto simp: nth_append intro: le_less_trans)
    qed
    then show ?thesis using True by simp
  next
    case False
    have "argmax_scan xs (Suc k) best bestv < length ((pre @ [x]) @ xs) \<and>
         (\<forall>j < length ((pre @ [x]) @ xs). ((pre @ [x]) @ xs) ! j \<le> ((pre @ [x]) @ xs) ! argmax_scan xs (Suc k) best bestv) \<and>
         (\<forall>j < argmax_scan xs (Suc k) best bestv. ((pre @ [x]) @ xs) ! j < ((pre @ [x]) @ xs) ! argmax_scan xs (Suc k) best bestv)"
    proof (rule Cons.IH[OF len])
      show "best < Suc k" using Cons.prems(2) by simp
      show "bestv = (pre @ [x]) ! best" using Cons.prems(1,2,3) by (simp add: nth_append)
      show "\<forall>j<Suc k. (pre @ [x]) ! j \<le> bestv"
        using Cons.prems(1,4) False by (auto simp: nth_append less_Suc_eq)
      show "\<forall>j<best. (pre @ [x]) ! j < bestv"
        using Cons.prems(1,2,5) by (auto simp: nth_append)
    qed
    then show ?thesis using False by simp
  qed
qed

lemma np_argmax_props:
  assumes "xs \<noteq> []"
  shows "np_argmax xs < length xs"
    and "\<forall>j < length xs. xs ! j \<le> xs ! np_argmax xs"
    and "\<forall>j < np_argmax xs. xs ! j < xs ! np_argmax xs"
proof -
  from assms obtain x xs' where xs: "xs = x # xs'" by (cases xs) auto
  have "argmax_scan xs' 1 0 x < length ([x] @ xs') \<and>
         (\<forall>j < length ([x] @ xs'). ([x] @ xs') ! j \<le> ([x] @ xs') ! argmax_scan xs' 1 0 x) \<and>
         (\<forall>j < argmax_scan xs' 1 0 x. ([x] @ xs') ! j < ([x] @ xs') ! argmax_scan xs' 1 0 x)"
    by (rule argmax_scan_props) simp_all
  then show "np_argmax xs < length xs"
    and "\<forall>j < length xs. xs ! j \<le> xs ! np_argmax xs"
    and "\<forall>j < np_argmax xs. xs ! j < xs ! np_argmax xs"
    by (simp_all add: np_argmax_def xs)
qed

lemma argmin_scan_props:
  assumes "length pre = k" "best < k" "bestv = pre ! best"
    and "\<forall>j < k. bestv \<le> pre ! j" and "\<forall>j < best. bestv < pre ! j"
  shows "argmin_scan xs k best bestv < length (pre @ xs) \<and>
         (\<forall>j < length (pre @ xs). (pre @ xs) ! argmin_scan xs k best bestv \<le> (pre @ xs) ! j) \<and>
         (\<forall>j < argmin_scan xs k best bestv. (pre @ xs) ! argmin_scan xs k best bestv < (pre @ xs) ! j)"
  using assms
proof (induction xs arbitrary: pre k best bestv)
  case Nil
  then show ?case by simp
next
  case (Cons x xs)
  have len: "length (pre @ [x]) = Suc k" using Cons.prems(1) by simp
  show ?case
  proof (cases "x < bestv")
    case True
    have "argmin_scan xs (Suc k) k x < length ((pre @ [x]) @ xs) \<and>
         (\<forall>j < length ((pre @ [x]) @ xs). ((pre @ [x]) @ xs) ! argmin_scan xs (Suc k) k x \<le> ((pre @ [x]) @ xs) ! j) \<and>
         (\<forall>j < argmin_scan xs (Suc k) k x. ((pre @ [x]) @ xs) ! argmin_scan xs (Suc k) k x < ((pre @ [x]) @ xs) ! j)"
    proof (rule Cons.IH[OF len])
      show "k < Suc k" by simp
      show "x = (pre @ [x]) ! k" using Cons.prems(1) by (simp add: nth_append)
      show "\<forall>j<Suc k. x \<le> (pre @ [x]) ! j"
        using Cons.prems(1,4) True by (auto simp: nth_append less_Suc_eq)
      show "\<forall>j<k. x < (pre @ [x]) ! j"
        using Cons.prems(1,4) True by (auto simp: nth_append intro: less_le_trans)
    qed
    then show ?thesis using True by simp
  next
    case False
    have "argmin_scan xs (Suc k) best bestv < length ((pre @ [x]) @ xs) \<and>
         (\<forall>j < length ((pre @ [x]) @ xs). ((pre @ [x]) @ xs) ! argmin_scan xs (Suc k) best bestv \<le> ((pre @ [x]) @ xs) ! j) \<and>
         (\<forall>j < argmin_scan xs (Suc k) best bestv. ((pre @ [x]) @ xs) ! argmin_scan xs (Suc k) best bestv < ((pre @ [x]) @ xs) ! j)"
    proof (rule Cons.IH[OF len])
      show "best < Suc k" using Cons.prems(2) by simp
      show "bestv = (pre @ [x]) ! best" using Cons.prems(1,2,3) by (simp add: nth_append)
      show "\<forall>j<Suc k. bestv \<le> (pre @ [x]) ! j"
        using Cons.prems(1,4) False by (auto simp: nth_append less_Suc_eq)
      show "\<forall>j<best. bestv < (pre @ [x]) ! j"
        using Cons.prems(1,2,5) by (auto simp: nth_append)
    qed
    then show ?thesis using False by simp
  qed
qed

lemma np_argmin_props:
  assumes "xs \<noteq> []"
  shows "np_argmin xs < length xs"
    and "\<forall>j < length xs. xs ! np_argmin xs \<le> xs ! j"
    and "\<forall>j < np_argmin xs. xs ! np_argmin xs < xs ! j"
proof -
  from assms obtain x xs' where xs: "xs = x # xs'" by (cases xs) auto
  have "argmin_scan xs' 1 0 x < length ([x] @ xs') \<and>
         (\<forall>j < length ([x] @ xs'). ([x] @ xs') ! argmin_scan xs' 1 0 x \<le> ([x] @ xs') ! j) \<and>
         (\<forall>j < argmin_scan xs' 1 0 x. ([x] @ xs') ! argmin_scan xs' 1 0 x < ([x] @ xs') ! j)"
    by (rule argmin_scan_props) simp_all
  then show "np_argmin xs < length xs"
    and "\<forall>j < length xs. xs ! np_argmin xs \<le> xs ! j"
    and "\<forall>j < np_argmin xs. xs ! np_argmin xs < xs ! j"
    by (simp_all add: np_argmin_def xs)
qed

lemma np_argsort_props:
  "set (np_argsort xs) = {0..<length xs}" "distinct (np_argsort xs)"
  "sorted (map (\<lambda>p. xs ! p) (np_argsort xs))"
proof -
  let ?e = "enumerate 0 xs" and ?s = "sort_key snd (enumerate 0 xs)"
  have se: "set ?s = set ?e" by simp
  show "set (np_argsort xs) = {0..<length xs}"
    unfolding np_argsort_def set_map se by (simp flip: set_map)
  have "distinct ?s" by (simp add: distinct_enumerate)
  moreover have "inj_on fst (set ?s)"
    unfolding se by (auto simp: inj_on_def in_set_enumerate_eq)
  ultimately show "distinct (np_argsort xs)"
    unfolding np_argsort_def distinct_map by blast
  have "map (\<lambda>p. xs ! p) (np_argsort xs) = map snd ?s"
    unfolding np_argsort_def map_map
  proof (rule map_cong[OF refl])
    fix p assume "p \<in> set ?s"
    then have "p \<in> set ?e" by simp
    then show "((\<lambda>p. xs ! p) \<circ> fst) p = snd p" by (auto simp: in_set_enumerate_eq)
  qed
  then show "sorted (map (\<lambda>p. xs ! p) (np_argsort xs))" by (simp add: sorted_sort_key)
qed


lemma is_first_max_unique:
  assumes "is_first_max key g b" "is_first_max key g b'"
  shows "b' = b"
proof (rule ccontr)
  assume "b' \<noteq> b"
  then consider "b' < b" | "b < b'" by linarith
  then show False
  proof cases
    case 1
    with assms have "key b' < key b" "key b \<le> key b'" by (auto simp: is_first_max_def)
    then show False by simp
  next
    case 2
    with assms have "key b < key b'" "key b' \<le> key b" by (auto simp: is_first_max_def)
    then show False by simp
  qed
qed

lemma is_first_min_unique:
  assumes "is_first_min key g b" "is_first_min key g b'"
  shows "b' = b"
proof (rule ccontr)
  assume "b' \<noteq> b"
  then consider "b' < b" | "b < b'" by linarith
  then show False
  proof cases
    case 1
    with assms have "key b < key b'" "key b' \<le> key b" by (auto simp: is_first_min_def)
    then show False by simp
  next
    case 2
    with assms have "key b' < key b" "key b \<le> key b'" by (auto simp: is_first_min_def)
    then show False by simp
  qed
qed

lemma sorted_distinct_index_less:
  assumes "sorted m" "q < length m" "p < length m" "m ! q < m ! p"
  shows "q < p"
proof (rule ccontr)
  assume "\<not> q < p"
  then have "p \<le> q" by simp
  then have "m ! p \<le> m ! q" using assms(1,2) by (simp add: sorted_nth_mono)
  with assms(4) show False by simp
qed

lemma first_max_of_argmax:
  assumes "sorted m" "m \<noteq> []"
  shows "is_first_max key m (m ! np_argmax (map key m))"
proof -
  let ?ks = "map key m" and ?p = "np_argmax (map key m)"
  have ne: "?ks \<noteq> []" using assms(2) by simp
  have p: "?p < length m" using np_argmax_props(1)[OF ne] by simp
  have le: "\<forall>q < length m. key (m ! q) \<le> key (m ! ?p)"
    using np_argmax_props(2)[OF ne] p by simp
  have lt: "\<forall>q < ?p. key (m ! q) < key (m ! ?p)"
    using np_argmax_props(3)[OF ne] p by simp
  show ?thesis
    unfolding is_first_max_def
  proof (intro conjI ballI impI)
    show "m ! ?p \<in> set m" using p by simp
  next
    fix j assume "j \<in> set m"
    then obtain q where "q < length m" "m ! q = j" by (auto simp: in_set_conv_nth)
    then show "key j \<le> key (m ! ?p)" using le by auto
  next
    fix j assume "j \<in> set m" "j < m ! ?p"
    then obtain q where q: "q < length m" "m ! q = j" by (auto simp: in_set_conv_nth)
    then have "q < ?p" using sorted_distinct_index_less[OF assms(1) q(1) p] \<open>j < m ! ?p\<close> by simp
    then show "key j < key (m ! ?p)" using lt q by auto
  qed
qed

lemma first_min_of_argmin:
  assumes "sorted m" "m \<noteq> []"
  shows "is_first_min key m (m ! np_argmin (map key m))"
proof -
  let ?ks = "map key m" and ?p = "np_argmin (map key m)"
  have ne: "?ks \<noteq> []" using assms(2) by simp
  have p: "?p < length m" using np_argmin_props(1)[OF ne] by simp
  have le: "\<forall>q < length m. key (m ! ?p) \<le> key (m ! q)"
    using np_argmin_props(2)[OF ne] p by simp
  have lt: "\<forall>q < ?p. key (m ! ?p) < key (m ! q)"
    using np_argmin_props(3)[OF ne] p by simp
  show ?thesis
    unfolding is_first_min_def
  proof (intro conjI ballI impI)
    show "m ! ?p \<in> set m" using p by simp
  next
    fix j assume "j \<in> set m"
    then obtain q where "q < length m" "m ! q = j" by (auto simp: in_set_conv_nth)
    then show "key (m ! ?p) \<le> key j" using le by auto
  next
    fix j assume "j \<in> set m" "j < m ! ?p"
    then obtain q where q: "q < length m" "m ! q = j" by (auto simp: in_set_conv_nth)
    then have "q < ?p" using sorted_distinct_index_less[OF assms(1) q(1) p] \<open>j < m ! ?p\<close> by simp
    then show "key (m ! ?p) < key j" using lt q by auto
  qed
qed

lemma reorder_by_argsort:
  assumes "distinct m"
  shows "distinct (map (\<lambda>p. m ! p) (np_argsort (map key m)))"
    and "set (map (\<lambda>p. m ! p) (np_argsort (map key m))) = set m"
    and "sorted (map key (map (\<lambda>p. m ! p) (np_argsort (map key m))))"
proof -
  let ?ks = "map key m" and ?perm = "np_argsort (map key m)"
  have sp: "set ?perm = {0..<length m}" using np_argsort_props(1)[of ?ks] by simp
  have dp: "distinct ?perm" by (rule np_argsort_props(2))
  have "inj_on (\<lambda>p. m ! p) (set ?perm)"
    unfolding sp using assms(1) by (auto simp: inj_on_def nth_eq_iff_index_eq)
  then show "distinct (map (\<lambda>p. m ! p) ?perm)" unfolding distinct_map using dp by blast
  show "set (map (\<lambda>p. m ! p) ?perm) = set m"
    unfolding set_map sp by (auto simp: in_set_conv_nth)
  have "map key (map (\<lambda>p. m ! p) ?perm) = map (\<lambda>p. ?ks ! p) ?perm"
    unfolding map_map
  proof (rule map_cong[OF refl])
    fix p assume "p \<in> set ?perm"
    then have "p < length m" using sp by simp
    then show "(key \<circ> (\<lambda>p. m ! p)) p = ?ks ! p" by simp
  qed
  then show "sorted (map key (map (\<lambda>p. m ! p) ?perm))"
    using np_argsort_props(3)[of ?ks] by (simp only:)
qed

lemma x_sorted_of_props:
  assumes "distinct m"
  shows "distinct (x_sorted_of yr m)" "set (x_sorted_of yr m) = set m"
    "sorted_wrt (\<ge>) (map (\<lambda>j. snd (yr ! j)) (x_sorted_of yr m))"
proof -
  let ?key = "\<lambda>j. snd (yr ! j)"
  let ?s = "map (\<lambda>p. m ! p) (np_argsort (map ?key m))"
  have r: "x_sorted_of yr m = rev ?s" by (simp add: x_sorted_of_def rev_map)
  show "distinct (x_sorted_of yr m)" "set (x_sorted_of yr m) = set m"
    using reorder_by_argsort(1,2)[OF assms, of ?key] by (simp_all add: r)
  have "sorted (map ?key ?s)" by (rule reorder_by_argsort(3)[OF assms])
  then have "sorted_wrt (\<ge>) (rev (map ?key ?s))" by (simp add: sorted_wrt_rev)
  then show "sorted_wrt (\<ge>) (map ?key (x_sorted_of yr m))" by (simp add: r rev_map)
qed

lemma y_sorted_of_props:
  assumes "distinct m"
  shows "distinct (y_sorted_of xr m)" "set (y_sorted_of xr m) = set m"
    "sorted (map (\<lambda>j. fst (xr ! j)) (y_sorted_of xr m))"
  using reorder_by_argsort[OF assms, of "\<lambda>j. fst (xr ! j)"] by (simp_all add: y_sorted_of_def)

lemma xgrouper_closed:
  assumes "length xr = n"
  shows "xgrouper shx n xr yr =
           (if shx then
              \<lparr>groups = map (matching_axes xr) (leaders xr n),
               groups_base = map (\<lambda>i. x_base_of yr (matching_axes xr i)) (leaders xr n),
               groups_sorted = map (\<lambda>i. x_sorted_of yr (matching_axes xr i)) (leaders xr n),
               grouped = concat (map (matching_axes xr) [0..<n])\<rparr>
            else no_groups)"
  using assms by (simp add: xgrouper_def xgroup_step_generic group_loop)

lemma ygrouper_closed:
  assumes "length yr = n"
  shows "ygrouper shy n xr yr =
           (if shy then
              \<lparr>groups = map (matching_axes yr) (leaders yr n),
               groups_base = map (\<lambda>i. y_base_of xr (matching_axes yr i)) (leaders yr n),
               groups_sorted = map (\<lambda>i. y_sorted_of xr (matching_axes yr i)) (leaders yr n),
               grouped = concat (map (matching_axes yr) [0..<n])\<rparr>
            else no_groups)"
  using assms by (simp add: ygrouper_def ygroup_step_generic group_loop)

lemma leader_group_nonempty:
  assumes "i \<in> set (leaders rng n)"
  shows "matching_axes rng i \<noteq> []" "1 < length (matching_axes rng i)"
  using assms by (auto simp: leaders_props)

lemma in_some_leader_group:
  assumes "length rng = n" "j < n"
  shows "(\<exists>i \<in> set (leaders rng n). j \<in> set (matching_axes rng i)) \<longleftrightarrow> shares_extent rng j"
proof
  assume "\<exists>i \<in> set (leaders rng n). j \<in> set (matching_axes rng i)"
  then obtain i where i: "i < n" "1 < length (matching_axes rng i)" "rng ! j = rng ! i"
    by (auto simp: leaders_props set_matching_axes)
  then obtain j' where "j' < length rng" "j' \<noteq> i" "rng ! j' = rng ! i"
    using matching_axes_long[of i rng] assms(1) by auto
  then show "shares_extent rng j"
    using i assms unfolding shares_extent_def
    by (cases "j' = j") (auto intro: bexI[of _ i] bexI[of _ j'])
next
  assume "shares_extent rng j"
  then obtain j' where j': "j' < length rng" "j' \<noteq> j" "rng ! j' = rng ! j"
    by (auto simp: shares_extent_def)
  obtain i where i: "i \<le> j" "first_of_class rng i" "rng ! i = rng ! j"
    using class_has_leader[of j rng] assms by auto
  have "\<exists>q < length rng. q \<noteq> i \<and> rng ! q = rng ! i"
    using j' i assms by (cases "j' = i") (auto intro: exI[of _ j] exI[of _ j'])
  then have "1 < length (matching_axes rng i)"
    using matching_axes_long[of i rng] i(1) assms by simp
  then have "i \<in> set (leaders rng n)" using i assms by (simp add: leaders_props)
  moreover have "j \<in> set (matching_axes rng i)" using i assms by (simp add: set_matching_axes)
  ultimately show "\<exists>i \<in> set (leaders rng n). j \<in> set (matching_axes rng i)" by blast
qed


lemma xgrouper_spec:
  assumes "length xr = n"
  shows "length (groups_base (xgrouper shx n xr yr)) = length (groups (xgrouper shx n xr yr))"
    and "length (groups_sorted (xgrouper shx n xr yr)) = length (groups (xgrouper shx n xr yr))"
    and "k < length (groups (xgrouper shx n xr yr)) \<Longrightarrow>
           x_group_spec xr yr (groups (xgrouper shx n xr yr) ! k)
             (groups_base (xgrouper shx n xr yr) ! k) (groups_sorted (xgrouper shx n xr yr) ! k)"
    and "j < n \<Longrightarrow> (\<exists>g \<in> set (groups (xgrouper shx n xr yr)). j \<in> set g) \<longleftrightarrow>
           (shx \<and> shares_extent xr j)"
proof -
  let ?X = "xgrouper shx n xr yr"
  note c = xgrouper_closed[OF assms, of shx yr]
  show "length (groups_base ?X) = length (groups ?X)"
    and "length (groups_sorted ?X) = length (groups ?X)"
    by (simp_all add: c no_groups_def)
  show "x_group_spec xr yr (groups ?X ! k) (groups_base ?X ! k) (groups_sorted ?X ! k)"
    if k: "k < length (groups ?X)"
  proof -
    from k have shx: shx by (auto simp: c no_groups_def split: if_splits)
    have cT: "?X = \<lparr>groups = map (matching_axes xr) (leaders xr n),
               groups_base = map (\<lambda>i. x_base_of yr (matching_axes xr i)) (leaders xr n),
               groups_sorted = map (\<lambda>i. x_sorted_of yr (matching_axes xr i)) (leaders xr n),
               grouped = concat (map (matching_axes xr) [0..<n])\<rparr>"
      using c shx by simp
    from k have kl: "k < length (leaders xr n)" unfolding cT by simp
    define i where "i = leaders xr n ! k"
    have il: "i \<in> set (leaders xr n)" using kl by (simp add: i_def)
    then have i: "i < n" "1 < length (matching_axes xr i)" by (auto simp: leaders_props)
    have g: "groups ?X ! k = matching_axes xr i"
      "groups_base ?X ! k = x_base_of yr (matching_axes xr i)"
      "groups_sorted ?X ! k = x_sorted_of yr (matching_axes xr i)"
      unfolding cT using kl by (simp_all add: i_def)
    have ne: "matching_axes xr i \<noteq> []" using i(2) by auto
    show ?thesis
      unfolding g x_group_spec_def
    proof (intro conjI)
      show "1 < length (matching_axes xr i)" by (rule i(2))
      show "\<exists>i' \<in> set [0..<length xr]. matching_axes xr i = matching_axes xr i'"
        using i(1) assms by (intro bexI[of _ i]) simp_all
      show "is_first_max (\<lambda>j. snd (yr ! j)) (matching_axes xr i) (x_base_of yr (matching_axes xr i))"
        unfolding x_base_of_def by (rule first_max_of_argmax[OF matching_axes_sorted(1) ne])
      show "distinct (x_sorted_of yr (matching_axes xr i))"
        "set (x_sorted_of yr (matching_axes xr i)) = set (matching_axes xr i)"
        "sorted_wrt (\<ge>) (map (\<lambda>j. snd (yr ! j)) (x_sorted_of yr (matching_axes xr i)))"
        by (rule x_sorted_of_props[OF matching_axes_sorted(2)])+
    qed
  qed
  show "(\<exists>g \<in> set (groups ?X). j \<in> set g) \<longleftrightarrow> (shx \<and> shares_extent xr j)" if "j < n"
  proof (cases shx)
    case True
    have "groups ?X = map (matching_axes xr) (leaders xr n)" using c True by simp
    then show ?thesis using in_some_leader_group[OF assms that] True by simp
  next
    case False
    then show ?thesis by (simp add: xgrouper_def no_groups_def)
  qed
qed

lemma ygrouper_spec:
  assumes "length yr = n"
  shows "length (groups_base (ygrouper shy n xr yr)) = length (groups (ygrouper shy n xr yr))"
    and "length (groups_sorted (ygrouper shy n xr yr)) = length (groups (ygrouper shy n xr yr))"
    and "k < length (groups (ygrouper shy n xr yr)) \<Longrightarrow>
           y_group_spec xr yr (groups (ygrouper shy n xr yr) ! k)
             (groups_base (ygrouper shy n xr yr) ! k) (groups_sorted (ygrouper shy n xr yr) ! k)"
    and "j < n \<Longrightarrow> (\<exists>g \<in> set (groups (ygrouper shy n xr yr)). j \<in> set g) \<longleftrightarrow>
           (shy \<and> shares_extent yr j)"
proof -
  let ?Y = "ygrouper shy n xr yr"
  note c = ygrouper_closed[OF assms, of shy xr]
  show "length (groups_base ?Y) = length (groups ?Y)"
    and "length (groups_sorted ?Y) = length (groups ?Y)"
    by (simp_all add: c no_groups_def)
  show "y_group_spec xr yr (groups ?Y ! k) (groups_base ?Y ! k) (groups_sorted ?Y ! k)"
    if k: "k < length (groups ?Y)"
  proof -
    from k have shy: shy by (auto simp: c no_groups_def split: if_splits)
    have cT: "?Y = \<lparr>groups = map (matching_axes yr) (leaders yr n),
               groups_base = map (\<lambda>i. y_base_of xr (matching_axes yr i)) (leaders yr n),
               groups_sorted = map (\<lambda>i. y_sorted_of xr (matching_axes yr i)) (leaders yr n),
               grouped = concat (map (matching_axes yr) [0..<n])\<rparr>"
      using c shy by simp
    from k have kl: "k < length (leaders yr n)" unfolding cT by simp
    define i where "i = leaders yr n ! k"
    have il: "i \<in> set (leaders yr n)" using kl by (simp add: i_def)
    then have i: "i < n" "1 < length (matching_axes yr i)" by (auto simp: leaders_props)
    have g: "groups ?Y ! k = matching_axes yr i"
      "groups_base ?Y ! k = y_base_of xr (matching_axes yr i)"
      "groups_sorted ?Y ! k = y_sorted_of xr (matching_axes yr i)"
      unfolding cT using kl by (simp_all add: i_def)
    have ne: "matching_axes yr i \<noteq> []" using i(2) by auto
    show ?thesis
      unfolding g y_group_spec_def
    proof (intro conjI)
      show "1 < length (matching_axes yr i)" by (rule i(2))
      show "\<exists>i' \<in> set [0..<length yr]. matching_axes yr i = matching_axes yr i'"
        using i(1) assms by (intro bexI[of _ i]) simp_all
      show "is_first_min (\<lambda>j. fst (xr ! j)) (matching_axes yr i) (y_base_of xr (matching_axes yr i))"
        unfolding y_base_of_def by (rule first_min_of_argmin[OF matching_axes_sorted(1) ne])
      show "distinct (y_sorted_of xr (matching_axes yr i))"
        "set (y_sorted_of xr (matching_axes yr i)) = set (matching_axes yr i)"
        "sorted (map (\<lambda>j. fst (xr ! j)) (y_sorted_of xr (matching_axes yr i)))"
        by (rule y_sorted_of_props[OF matching_axes_sorted(2)])+
    qed
  qed
  show "(\<exists>g \<in> set (groups ?Y). j \<in> set g) \<longleftrightarrow> (shy \<and> shares_extent yr j)" if "j < n"
  proof (cases shy)
    case True
    have "groups ?Y = map (matching_axes yr) (leaders yr n)" using c True by simp
    then show ?thesis using in_some_leader_group[OF assms that] True by simp
  next
    case False
    then show ?thesis by (simp add: ygrouper_def no_groups_def)
  qed
qed

text \<open>
  Claim C1. In a valid canonical arrangement with \<open>n\<close> panels, for the x axis (and in the
  same way for the y axis): the grouper records as many bases and orders as groups; every
  recorded group has more than one member and consists of all the panels whose column
  extent equals that of one panel; its base is the member with the greatest upper bound of
  the row extent, the first such member in the order of the panel numbers, and no other
  panel satisfies that rule; its order lists its members by descending upper bound. A
  panel belongs to a recorded group exactly when sharing is enabled and another panel has
  the same column extent, so a panel alone with its extent is in no group. The y axis
  compares row extents and takes the first member with the smallest lower bound of the
  column extent. The grouper is a function of the two tables: the same input gives the
  same bases and orders.
\<close>

theorem grouper_groups_and_bases:
  assumes "enforce_rule a = Inr n"
    and "X = xgrouper shx n (xrange a co) (yrange a ro)"
    and "Y = ygrouper shy n (xrange a co) (yrange a ro)"
  shows "length (groups_base X) = length (groups X) \<and>
         length (groups_sorted X) = length (groups X) \<and>
         length (groups_base Y) = length (groups Y) \<and>
         length (groups_sorted Y) = length (groups Y) \<and>
         (\<forall>k < length (groups X).
            x_group_spec (xrange a co) (yrange a ro)
              (groups X ! k) (groups_base X ! k) (groups_sorted X ! k) \<and>
            (\<forall>b. is_first_max (\<lambda>j. snd (yrange a ro ! j)) (groups X ! k) b \<longrightarrow>
                   b = groups_base X ! k)) \<and>
         (\<forall>k < length (groups Y).
            y_group_spec (xrange a co) (yrange a ro)
              (groups Y ! k) (groups_base Y ! k) (groups_sorted Y ! k) \<and>
            (\<forall>b. is_first_min (\<lambda>j. fst (xrange a co ! j)) (groups Y ! k) b \<longrightarrow>
                   b = groups_base Y ! k)) \<and>
         (\<forall>j < n. (\<exists>g \<in> set (groups X). j \<in> set g) \<longleftrightarrow> (shx \<and> shares_extent (xrange a co) j)) \<and>
         (\<forall>j < n. (\<exists>g \<in> set (groups Y). j \<in> set g) \<longleftrightarrow> (shy \<and> shares_extent (yrange a ro) j))"
proof -
  have lx: "length (xrange a co) = n" and ly: "length (yrange a ro) = n"
    using extent_tables_length[OF assms(1)] by simp_all
  note xs = xgrouper_spec[OF lx, where shx = shx and yr = "yrange a ro", folded assms(2)]
  note ys = ygrouper_spec[OF ly, where shy = shy and xr = "xrange a co", folded assms(3)]
  have xu: "\<forall>b. is_first_max (\<lambda>j. snd (yrange a ro ! j)) (groups X ! k) b \<longrightarrow> b = groups_base X ! k"
    if "k < length (groups X)" for k
    using xs(3)[OF that] is_first_max_unique unfolding x_group_spec_def by blast
  have yu: "\<forall>b. is_first_min (\<lambda>j. fst (xrange a co ! j)) (groups Y ! k) b \<longrightarrow> b = groups_base Y ! k"
    if "k < length (groups Y)" for k
    using ys(3)[OF that] is_first_min_unique unfolding y_group_spec_def by blast
  show ?thesis
    using xs(1,2) ys(1,2) xs(3) ys(3) xu yu xs(4) ys(4) by blast
qed


theorem grouper_groups_and_bases_witness:
  "enforce_rule [[1, 2, 3], [4, 4, 5]] = Inr 5 \<and>
   groups (xgrouper True 5 (xrange [[1, 2, 3], [4, 4, 5]] 0) (yrange [[1, 2, 3], [4, 4, 5]] 0)) = [[2, 4]] \<and>
   groups_base (xgrouper True 5 (xrange [[1, 2, 3], [4, 4, 5]] 0) (yrange [[1, 2, 3], [4, 4, 5]] 0)) = [4] \<and>
   x_group_spec (xrange [[1, 2, 3], [4, 4, 5]] 0) (yrange [[1, 2, 3], [4, 4, 5]] 0) [2, 4] 4 [4, 2] \<and>
   groups (ygrouper True 5 (xrange [[1, 2, 3], [4, 4, 5]] 0) (yrange [[1, 2, 3], [4, 4, 5]] 0)) = [[0, 1, 2], [3, 4]] \<and>
   groups_base (ygrouper True 5 (xrange [[1, 2, 3], [4, 4, 5]] 0) (yrange [[1, 2, 3], [4, 4, 5]] 0)) = [0, 3] \<and>
   y_group_spec (xrange [[1, 2, 3], [4, 4, 5]] 0) (yrange [[1, 2, 3], [4, 4, 5]] 0) [3, 4] 3 [3, 4]"
proof -
  let ?a = "[[1, 2, 3], [4, 4, 5 :: int]]"
  let ?X = "xgrouper True 5 (xrange ?a 0) (yrange ?a 0)"
  let ?Y = "ygrouper True 5 (xrange ?a 0) (yrange ?a 0)"
  have e: "enforce_rule ?a = Inr 5" by code_simp
  have X: "groups ?X = [[2, 4]]" "groups_base ?X = [4]" "groups_sorted ?X = [[4, 2]]"
    by code_simp+
  have Y: "groups ?Y = [[0, 1, 2], [3, 4]]" "groups_base ?Y = [0, 3]" "groups_sorted ?Y = [[0, 1, 2], [3, 4]]"
    by code_simp+
  note t = grouper_groups_and_bases[OF e refl refl, of True 0 0 True]
  from t have "\<forall>k < length (groups ?X).
      x_group_spec (xrange ?a 0) (yrange ?a 0) (groups ?X ! k) (groups_base ?X ! k) (groups_sorted ?X ! k)"
    by blast
  then have x: "x_group_spec (xrange ?a 0) (yrange ?a 0) [2, 4] 4 [4, 2]"
    unfolding X by (drule_tac x = 0 in spec) simp
  from t have "\<forall>k < length (groups ?Y).
      y_group_spec (xrange ?a 0) (yrange ?a 0) (groups ?Y ! k) (groups_base ?Y ! k) (groups_sorted ?Y ! k)"
    by blast
  then have y: "y_group_spec (xrange ?a 0) (yrange ?a 0) [3, 4] 3 [3, 4]"
    unfolding Y by (drule_tac x = 1 in spec) simp
  show ?thesis using e X Y x y by simp
qed

section \<open>Properties of the check after drawing\<close>


lemma leader_groups_disjoint:
  assumes "k < length (leaders rng n)" "k' < length (leaders rng n)" "k \<noteq> k'"
  shows "set (matching_axes rng (leaders rng n ! k)) \<inter> set (matching_axes rng (leaders rng n ! k')) = {}"
proof -
  have "leaders rng n ! k \<noteq> leaders rng n ! k'"
    using assms leaders_props(1)[of rng n] by (simp add: nth_eq_iff_index_eq)
  moreover have "first_of_class rng (leaders rng n ! k)" "first_of_class rng (leaders rng n ! k')"
    using assms(1,2) leaders_props(3)[of _ rng n] nth_mem by blast+
  ultimately show ?thesis by (intro leader_classes_disjoint)
qed

lemma xgroups_disjoint:
  assumes "length xr = n"
    and "k < length (groups (xgrouper shx n xr yr))" "k' < length (groups (xgrouper shx n xr yr))"
    and "k \<noteq> k'"
  shows "set (groups (xgrouper shx n xr yr) ! k) \<inter> set (groups (xgrouper shx n xr yr) ! k') = {}"
proof (cases shx)
  case True
  have g: "groups (xgrouper shx n xr yr) = map (matching_axes xr) (leaders xr n)"
    using xgrouper_closed[OF assms(1), of shx yr] True by simp
  show ?thesis using assms(2,3) leader_groups_disjoint[OF _ _ assms(4), of xr n]
    unfolding g by simp
next
  case False
  then show ?thesis using assms(2) by (simp add: xgrouper_def no_groups_def)
qed

lemma ygroups_disjoint:
  assumes "length yr = n"
    and "k < length (groups (ygrouper shy n xr yr))" "k' < length (groups (ygrouper shy n xr yr))"
    and "k \<noteq> k'"
  shows "set (groups (ygrouper shy n xr yr) ! k) \<inter> set (groups (ygrouper shy n xr yr) ! k') = {}"
proof (cases shy)
  case True
  have g: "groups (ygrouper shy n xr yr) = map (matching_axes yr) (leaders yr n)"
    using ygrouper_closed[OF assms(1), of shy xr] True by simp
  show ?thesis using assms(2,3) leader_groups_disjoint[OF _ _ assms(4), of yr n]
    unfolding g by simp
next
  case False
  then show ?thesis using assms(2) by (simp add: ygrouper_def no_groups_def)
qed





section \<open>Properties of the draw orchestrator\<close>

lemma create_axes_simps:
  "axs (create_axes L i sx sy fig) = (axs fig)[i := Some (Axes (length (calls fig)))]"
  "calls (create_axes L i sx sy fig) =
     calls fig @ [Create (kind_of L i) (ytable L ! i) (xtable L ! i) (i + 1) sx sy]"
  by (simp_all add: create_axes_def kind_of_def)

lemma fig_inv_create:
  assumes "fig_inv fig" "i < length (axs fig)"
  shows "fig_inv (create_axes L i sx sy fig)"
  unfolding fig_inv_def
proof (intro allI impI)
  fix j h
  assume j: "j < length (axs (create_axes L i sx sy fig))"
    and h: "axs (create_axes L i sx sy fig) ! j = Some h"
  show "\<exists>p < length (calls (create_axes L i sx sy fig)).
          h = Axes p \<and> created_panels [calls (create_axes L i sx sy fig) ! p] = [j]"
  proof (cases "j = i")
    case True
    with h assms(2) have "h = Axes (length (calls fig))" by (simp add: create_axes_simps)
    then show ?thesis
      by (intro exI[of _ "length (calls fig)"]) (simp add: create_axes_simps created_panels_def True)
  next
    case False
    with h j have "axs fig ! j = Some h" "j < length (axs fig)" by (simp_all add: create_axes_simps)
    with assms(1) obtain p where "p < length (calls fig)" "h = Axes p"
      "created_panels [calls fig ! p] = [j]" unfolding fig_inv_def by blast
    then show ?thesis
      by (intro exI[of _ p]) (simp add: create_axes_simps nth_append)
  qed
qed

lemma fig_inv_append:
  assumes "fig_inv fig"
  shows "fig_inv (fig\<lparr>calls := calls fig @ cs\<rparr>)"
  unfolding fig_inv_def
proof (intro allI impI)
  fix j h
  assume "j < length (axs (fig\<lparr>calls := calls fig @ cs\<rparr>))"
    and "axs (fig\<lparr>calls := calls fig @ cs\<rparr>) ! j = Some h"
  then have "axs fig ! j = Some h" "j < length (axs fig)" by simp_all
  with assms(1) obtain p where "p < length (calls fig)" "h = Axes p"
    "created_panels [calls fig ! p] = [j]" unfolding fig_inv_def by blast
  then show "\<exists>p < length (calls (fig\<lparr>calls := calls fig @ cs\<rparr>)).
          h = Axes p \<and> created_panels [calls (fig\<lparr>calls := calls fig @ cs\<rparr>) ! p] = [j]"
    by (intro exI[of _ p]) (simp add: nth_append)
qed

lemma fig_inv_inj:
  assumes "fig_inv fig" "i < length (axs fig)" "j < length (axs fig)"
    and "axs fig ! i = Some h" "axs fig ! j = Some h"
  shows "i = j"
proof -
  from assms(1,2,4) obtain p where p: "h = Axes p" "created_panels [calls fig ! p] = [i]"
    unfolding fig_inv_def by blast
  from assms(1,3,5) obtain q where q: "h = Axes q" "created_panels [calls fig ! q] = [j]"
    unfolding fig_inv_def by blast
  from p(1) q(1) have "p = q" by simp
  with p(2) q(2) show ?thesis by simp
qed

lemma draw_bases_ok:
  assumes "\<forall>i \<in> set bs. i < length (axs fig)" "fig_inv fig"
  shows "\<exists>fig' new. draw_bases L bs fig = Inr fig' \<and>
           length (axs fig') = length (axs fig) \<and>
           calls fig' = calls fig @ map (unshared L) new \<and>
           distinct new \<and> set new = {i \<in> set bs. axs fig ! i = None} \<and>
           fig_inv fig' \<and>
           (\<forall>i \<in> set bs. axs fig' ! i \<noteq> None) \<and>
           (\<forall>i < length (axs fig). axs fig ! i \<noteq> None \<longrightarrow> axs fig' ! i = axs fig ! i) \<and>
           (\<forall>i < length (axs fig). i \<notin> set bs \<longrightarrow> axs fig' ! i = axs fig ! i)"
  using assms
proof (induction bs arbitrary: fig)
  case Nil
  show ?case by (intro exI[of _ fig] exI[of _ "[]"]) (simp add: Nil.prems)
next
  case (Cons b bs)
  have b: "b < length (axs fig)" using Cons.prems(1) by simp
  show ?case
  proof (cases "axs fig ! b")
    case (Some h)
    from Cons.IH[of fig] Cons.prems obtain fig' new where r:
      "draw_bases L bs fig = Inr fig'" "length (axs fig') = length (axs fig)"
      "calls fig' = calls fig @ map (unshared L) new"
      "distinct new" "set new = {i \<in> set bs. axs fig ! i = None}" "fig_inv fig'"
      "\<forall>i \<in> set bs. axs fig' ! i \<noteq> None"
      "\<forall>i < length (axs fig). axs fig ! i \<noteq> None \<longrightarrow> axs fig' ! i = axs fig ! i"
      "\<forall>i < length (axs fig). i \<notin> set bs \<longrightarrow> axs fig' ! i = axs fig ! i"
      by auto
    have nb: "axs fig' ! b \<noteq> None" using r(8) b Some by simp
    show ?thesis
    proof (intro exI[of _ fig'] exI[of _ new] conjI)
      show "draw_bases L (b # bs) fig = Inr fig'" using b Some r(1) by simp
      show "length (axs fig') = length (axs fig)" by (rule r(2))
      show "calls fig' = calls fig @ map (unshared L) new" by (rule r(3))
      show "distinct new" by (rule r(4))
      show "set new = {i \<in> set (b # bs). axs fig ! i = None}" using r(5) Some by auto
      show "fig_inv fig'" by (rule r(6))
      show "\<forall>i \<in> set (b # bs). axs fig' ! i \<noteq> None" using r(7) nb by simp
      show "\<forall>i < length (axs fig). axs fig ! i \<noteq> None \<longrightarrow> axs fig' ! i = axs fig ! i" by (rule r(8))
      show "\<forall>i < length (axs fig). i \<notin> set (b # bs) \<longrightarrow> axs fig' ! i = axs fig ! i"
        using r(9) by simp
    qed
  next
    case None
    let ?f = "create_axes L b None None fig"
    have l: "length (axs ?f) = length (axs fig)" by (simp add: create_axes_simps)
    have "\<forall>i \<in> set bs. i < length (axs ?f)" using Cons.prems(1) l by simp
    moreover have "fig_inv ?f" using Cons.prems(2) b by (rule fig_inv_create)
    ultimately obtain fig' new where r:
      "draw_bases L bs ?f = Inr fig'" "length (axs fig') = length (axs ?f)"
      "calls fig' = calls ?f @ map (unshared L) new"
      "distinct new" "set new = {i \<in> set bs. axs ?f ! i = None}" "fig_inv fig'"
      "\<forall>i \<in> set bs. axs fig' ! i \<noteq> None"
      "\<forall>i < length (axs ?f). axs ?f ! i \<noteq> None \<longrightarrow> axs fig' ! i = axs ?f ! i"
      "\<forall>i < length (axs ?f). i \<notin> set bs \<longrightarrow> axs fig' ! i = axs ?f ! i"
      using Cons.IH[of ?f] by blast
    have fb: "axs ?f ! b = Some (Axes (length (calls fig)))" using b by (simp add: create_axes_simps)
    have other: "axs ?f ! i = axs fig ! i" if "i \<noteq> b" for i using that by (simp add: create_axes_simps)
    have sn: "set new = {i \<in> set bs. i \<noteq> b \<and> axs fig ! i = None}"
    proof -
      have "(axs ?f ! i = None) = (i \<noteq> b \<and> axs fig ! i = None)" for i
        using fb other[of i] by (cases "i = b") simp_all
      then show ?thesis unfolding r(5) by simp
    qed
    show ?thesis
    proof (intro exI[of _ fig'] exI[of _ "b # new"] conjI)
      show "draw_bases L (b # bs) fig = Inr fig'" using b None r(1) by simp
      show "length (axs fig') = length (axs fig)" using r(2) l by simp
      show "calls fig' = calls fig @ map (unshared L) (b # new)"
        using r(3) by (simp add: create_axes_simps unshared_def)
      show "distinct (b # new)" using r(4) sn by simp
      show "set (b # new) = {i \<in> set (b # bs). axs fig ! i = None}" using sn None by auto
      show "fig_inv fig'" by (rule r(6))
      show "\<forall>i \<in> set (b # bs). axs fig' ! i \<noteq> None"
        using r(7) r(8) fb b l by auto
      show "\<forall>i < length (axs fig). axs fig ! i \<noteq> None \<longrightarrow> axs fig' ! i = axs fig ! i"
      proof (intro allI impI)
        fix i assume i: "i < length (axs fig)" "axs fig ! i \<noteq> None"
        then have "i \<noteq> b" using None by auto
        then show "axs fig' ! i = axs fig ! i" using r(8) i l other by auto
      qed
      show "\<forall>i < length (axs fig). i \<notin> set (b # bs) \<longrightarrow> axs fig' ! i = axs fig ! i"
        using r(9) l other by auto
    qed
  qed
qed

lemma created_panels_unshared: "created_panels (map (unshared L) bs) = bs"
  by (induction bs) (simp_all add: created_panels_def unshared_def)

lemma first_pass_ok:
  assumes wx: "wf_grouping (num_axes L) (xg L)" and wy: "wf_grouping (num_axes L) (yg L)"
  shows "\<exists>fig1 bases. first_pass L = Inr fig1 \<and>
           length (axs fig1) = num_axes L \<and>
           calls fig1 = map (unshared L) bases \<and>
           distinct bases \<and> set bases = set (allgroups_base L) \<and>
           fig_inv fig1 \<and>
           (\<forall>p < length bases. axs fig1 ! (bases ! p) = Some (Axes p)) \<and>
           (\<forall>i < num_axes L. i \<notin> set bases \<longrightarrow> axs fig1 ! i = None)"
proof -
  let ?f0 = "\<lparr>axs = replicate (num_axes L) None, calls = []\<rparr>"
  have bnd: "\<forall>i \<in> set (allgroups_base L). i < length (axs ?f0)"
    using wx wy by (auto simp: allgroups_base_def wf_grouping_def)
  have inv0: "fig_inv ?f0" by (simp add: fig_inv_def)
  from draw_bases_ok[OF bnd inv0, of L] obtain fig1 bases where r:
    "draw_bases L (allgroups_base L) ?f0 = Inr fig1" "length (axs fig1) = length (axs ?f0)"
    "calls fig1 = calls ?f0 @ map (unshared L) bases"
    "distinct bases" "set bases = {i \<in> set (allgroups_base L). axs ?f0 ! i = None}" "fig_inv fig1"
    "\<forall>i \<in> set (allgroups_base L). axs fig1 ! i \<noteq> None"
    "\<forall>i < length (axs ?f0). i \<notin> set (allgroups_base L) \<longrightarrow> axs fig1 ! i = axs ?f0 ! i"
    by blast
  have sb: "set bases = set (allgroups_base L)" using r(5) bnd by auto
  have c: "calls fig1 = map (unshared L) bases" using r(3) by simp
  have len: "length (axs fig1) = num_axes L" using r(2) by simp
  have hp: "axs fig1 ! (bases ! p) = Some (Axes p)" if p: "p < length bases" for p
  proof -
    have bp: "bases ! p \<in> set (allgroups_base L)" using p sb nth_mem by blast
    then have lt: "bases ! p < length (axs fig1)" using bnd len by simp
    from bp r(7) obtain h where h: "axs fig1 ! (bases ! p) = Some h" by auto
    from r(6) lt h obtain q where q: "q < length (calls fig1)" "h = Axes q"
      "created_panels [calls fig1 ! q] = [bases ! p]" unfolding fig_inv_def by blast
    from q(1) have ql: "q < length bases" by (simp add: c)
    then have "calls fig1 ! q = unshared L (bases ! q)" by (simp add: c)
    then have "bases ! q = bases ! p" using q(3) by (simp add: created_panels_def unshared_def)
    then have "q = p" using r(4) ql p by (simp add: nth_eq_iff_index_eq)
    then show ?thesis using h q(2) by simp
  qed
  have un: "axs fig1 ! i = None" if "i < num_axes L" "i \<notin> set bases" for i
    using r(8) that sb by simp
  show ?thesis
    using r(1) len c r(4) sb r(6) hp un
    by (intro exI[of _ fig1] exI[of _ bases]) (simp add: first_pass_def)
qed


lemma base_of_panel_bound:
  assumes "wf_grouping n g" "base_of_panel share g i = Some b"
  shows "b \<in> set (groups_base g)" "b < n" "share"
proof -
  from assms(2) have sh: share by (auto simp: base_of_panel_def split: if_splits)
  from assms(2) sh obtain k where k: "filter (\<lambda>k. i \<in> set (groups g ! k)) [0..<length (groups g)] = [k]"
    "b = groups_base g ! k"
    by (auto simp: base_of_panel_def split: list.splits)
  have "k \<in> set (filter (\<lambda>k. i \<in> set (groups g ! k)) [0..<length (groups g)])" unfolding k(1) by simp
  then have "k < length (groups_base g)" using assms(1) by (simp add: wf_grouping_def)
  then show "b \<in> set (groups_base g)" using k(2) by simp
  then show "b < n" using assms(1) by (simp add: wf_grouping_def)
  show share by (rule sh)
qed

lemma share_ax_eq:
  assumes "wf_grouping n g" "length (axs fig) = n"
  shows "share_ax share g i fig =
           (case base_of_panel share g i of
              None \<Rightarrow> Inr None
            | Some b \<Rightarrow> (case axs fig ! b of None \<Rightarrow> Inl OrderingViolation | Some h \<Rightarrow> Inr (Some h)))"
proof (cases share)
  case False
  then show ?thesis by (simp add: share_ax_def base_of_panel_def)
next
  case True
  let ?ig = "filter (\<lambda>k. i \<in> set (groups g ! k)) [0..<length (groups g)]"
  show ?thesis
  proof (cases "length ?ig = 1")
    case False
    then have "base_of_panel share g i = None"
      by (auto simp: base_of_panel_def True split: list.splits)
    then show ?thesis using False True by (simp add: share_ax_def Let_def)
  next
    case l: True
    then obtain k where k: "?ig = [k]" by (cases ?ig) auto
    then have b: "base_of_panel share g i = Some (groups_base g ! k)"
      by (simp add: base_of_panel_def True)
    have "groups_base g ! k \<in> set (groups_base g)" "groups_base g ! k < n"
      using base_of_panel_bound[OF assms(1) b] by simp_all
    moreover have "k < length (groups_base g)"
    proof -
      have "k \<in> set ?ig" unfolding k by simp
      then show ?thesis using assms(1) by (simp add: wf_grouping_def)
    qed
    ultimately show ?thesis
      using True l k assms(2) b by (simp add: share_ax_def Let_def)
  qed
qed

lemma base_drawn_source:
  assumes "wf_grouping n g" "\<forall>b \<in> set (groups_base g). axs fig ! b \<noteq> None" "length (axs fig) = n"
  shows "share_ax share g i fig = Inr (source_of share g fig i)"
proof (cases "base_of_panel share g i")
  case None
  then show ?thesis by (simp add: share_ax_eq[OF assms(1,3)] source_of_def)
next
  case (Some b)
  then have "b \<in> set (groups_base g)" by (rule base_of_panel_bound(1)[OF assms(1)])
  then obtain h where "axs fig ! b = Some h" using assms(2) by auto
  then show ?thesis by (simp add: share_ax_eq[OF assms(1,3)] source_of_def Some)
qed

lemma in_allgroups_base:
  "share_x \<Longrightarrow> b \<in> set (groups_base gx) \<Longrightarrow> sharex L = share_x \<Longrightarrow> xg L = gx \<Longrightarrow> b \<in> set (allgroups_base L)"
  "share_y \<Longrightarrow> b \<in> set (groups_base gy) \<Longrightarrow> sharey L = share_y \<Longrightarrow> yg L = gy \<Longrightarrow> b \<in> set (allgroups_base L)"
  by (auto simp: allgroups_base_def)

lemma source_of_drawn:
  assumes "wf_grouping n (xg L)" "wf_grouping n (yg L)"
    and "\<forall>b \<in> set (allgroups_base L). axs fig ! b \<noteq> None" "length (axs fig) = n"
  shows "share_ax (sharex L) (xg L) i fig = Inr (source_of (sharex L) (xg L) fig i)"
    and "share_ax (sharey L) (yg L) i fig = Inr (source_of (sharey L) (yg L) fig i)"
proof -
  show "share_ax (sharex L) (xg L) i fig = Inr (source_of (sharex L) (xg L) fig i)"
  proof (cases "base_of_panel (sharex L) (xg L) i")
    case None
    then show ?thesis by (simp add: share_ax_eq[OF assms(1,4)] source_of_def)
  next
    case (Some b)
    then have "b \<in> set (allgroups_base L)"
      using base_of_panel_bound(1,3)[OF assms(1) Some] by (auto simp: allgroups_base_def)
    then obtain h where "axs fig ! b = Some h" using assms(3) by auto
    then show ?thesis by (simp add: share_ax_eq[OF assms(1,4)] source_of_def Some)
  qed
  show "share_ax (sharey L) (yg L) i fig = Inr (source_of (sharey L) (yg L) fig i)"
  proof (cases "base_of_panel (sharey L) (yg L) i")
    case None
    then show ?thesis by (simp add: share_ax_eq[OF assms(2,4)] source_of_def)
  next
    case (Some b)
    then have "b \<in> set (allgroups_base L)"
      using base_of_panel_bound(1,3)[OF assms(2) Some] by (auto simp: allgroups_base_def)
    then obtain h where "axs fig ! b = Some h" using assms(3) by auto
    then show ?thesis by (simp add: share_ax_eq[OF assms(2,4)] source_of_def Some)
  qed
qed

lemma draw_axes_ok:
  assumes "wf_grouping n (xg L)" "wf_grouping n (yg L)"
    and "\<forall>b \<in> set (allgroups_base L). axs fig ! b \<noteq> None" "length (axs fig) = n" "i < n"
  shows "draw_axes L i fig =
           Inr \<lparr>axs = (case axs fig ! i of
                         None \<Rightarrow> (axs fig)[i := Some (Axes (length (calls fig)))]
                       | Some h \<Rightarrow> axs fig),
                calls = calls fig @ step_calls L fig i\<rparr>"
proof (cases "axs fig ! i")
  case None
  then show ?thesis
    using assms(4,5)
    by (simp add: draw_axes_def source_of_drawn[OF assms(1-4)] step_calls_def create_axes_def kind_of_def)
next
  case (Some h)
  then show ?thesis
    using assms(4,5)
    by (simp add: draw_axes_def source_of_drawn[OF assms(1-4)] step_calls_def)
qed

lemma draw_dependents_append:
  "draw_dependents L (xs @ ys) fig =
     (case draw_dependents L xs fig of Inl e \<Rightarrow> Inl e | Inr fig' \<Rightarrow> draw_dependents L ys fig')"
  by (induction xs arbitrary: fig) (auto split: sum.splits)

lemma source_of_agree:
  assumes "wf_grouping n g" "share \<Longrightarrow> \<forall>b \<in> set (groups_base g). axs fig ! b = axs fig1 ! b"
  shows "source_of share g fig i = source_of share g fig1 i"
proof (cases "base_of_panel share g i")
  case None
  then show ?thesis by (simp add: source_of_def)
next
  case (Some b)
  then have "b \<in> set (groups_base g)" share by (rule base_of_panel_bound[OF assms(1)])+
  then have "axs fig ! b = axs fig1 ! b" using assms(2) by blast
  then show ?thesis unfolding source_of_def Some by simp
qed

lemma second_pass_loop:
  assumes wx: "wf_grouping n (xg L)" and wy: "wf_grouping n (yg L)"
    and drawn: "\<forall>b \<in> set (allgroups_base L). axs fig1 ! b \<noteq> None"
    and len: "length (axs fig1) = n"
    and m: "m \<le> n"
  shows "\<exists>fig. draw_dependents L [0..<m] fig1 = Inr fig \<and>
           calls fig = calls fig1 @ concat (map (step_calls L fig1) [0..<m]) \<and>
           length (axs fig) = n \<and>
           (\<forall>i < n. axs fig1 ! i \<noteq> None \<longrightarrow> axs fig ! i = axs fig1 ! i) \<and>
           (\<forall>i < n. m \<le> i \<longrightarrow> axs fig ! i = axs fig1 ! i) \<and>
           (\<forall>i < m. axs fig ! i \<noteq> None)"
  using m
proof (induction m)
  case 0
  show ?case by (intro exI[of _ fig1]) (simp add: len)
next
  case (Suc m)
  then have mn: "m < n" by simp
  from Suc obtain fig where f:
    "draw_dependents L [0..<m] fig1 = Inr fig"
    "calls fig = calls fig1 @ concat (map (step_calls L fig1) [0..<m])"
    "length (axs fig) = n"
    "\<forall>i < n. axs fig1 ! i \<noteq> None \<longrightarrow> axs fig ! i = axs fig1 ! i"
    "\<forall>i < n. m \<le> i \<longrightarrow> axs fig ! i = axs fig1 ! i"
    "\<forall>i < m. axs fig ! i \<noteq> None"
    by auto
  have bx: "\<forall>b \<in> set (groups_base (xg L)). axs fig ! b = axs fig1 ! b" if "sharex L"
    using that drawn f(4) wx by (auto simp: wf_grouping_def allgroups_base_def)
  have by': "\<forall>b \<in> set (groups_base (yg L)). axs fig ! b = axs fig1 ! b" if "sharey L"
    using that drawn f(4) wy by (auto simp: wf_grouping_def allgroups_base_def)
  have dr: "\<forall>b \<in> set (allgroups_base L). axs fig ! b \<noteq> None"
  proof
    fix b assume b: "b \<in> set (allgroups_base L)"
    then have "b < n" using wx wy by (auto simp: allgroups_base_def wf_grouping_def split: if_splits)
    then show "axs fig ! b \<noteq> None" using drawn b f(4) by auto
  qed
  have am: "axs fig ! m = axs fig1 ! m" using f(5) mn by simp
  have sc: "step_calls L fig m = step_calls L fig1 m"
    by (simp add: step_calls_def am source_of_agree[OF wx bx] source_of_agree[OF wy by']
          cong: option.case_cong)
  let ?fig' = "\<lparr>axs = (case axs fig ! m of
                         None \<Rightarrow> (axs fig)[m := Some (Axes (length (calls fig)))]
                       | Some h \<Rightarrow> axs fig),
                calls = calls fig @ step_calls L fig m\<rparr>"
  have st: "draw_axes L m fig = Inr ?fig'" by (rule draw_axes_ok[OF wx wy dr f(3) mn])
  have run: "draw_dependents L [0..<Suc m] fig1 = Inr ?fig'"
    by (simp add: draw_dependents_append f(1) st)
  show ?case
  proof (intro exI[of _ ?fig'] conjI)
    show "draw_dependents L [0..<Suc m] fig1 = Inr ?fig'" by (rule run)
    show "calls ?fig' = calls fig1 @ concat (map (step_calls L fig1) [0..<Suc m])"
      by (simp add: f(2) sc)
    show "length (axs ?fig') = n" using f(3) by (simp split: option.splits)
    show "\<forall>i < n. axs fig1 ! i \<noteq> None \<longrightarrow> axs ?fig' ! i = axs fig1 ! i"
    proof (intro allI impI)
      fix i assume i: "i < n" "axs fig1 ! i \<noteq> None"
      show "axs ?fig' ! i = axs fig1 ! i"
      proof (cases "axs fig ! m")
        case None
        then have "i \<noteq> m" using am i(2) by auto
        then show ?thesis using None f(4) i by simp
      next
        case (Some h)
        then show ?thesis using f(4) i by simp
      qed
    qed
    show "\<forall>i < n. Suc m \<le> i \<longrightarrow> axs ?fig' ! i = axs fig1 ! i"
      using f(3,5) by (auto simp: nth_list_update split: option.splits)
    show "\<forall>i < Suc m. axs ?fig' ! i \<noteq> None"
      using f(6) f(3) mn by (auto simp: less_Suc_eq nth_list_update split: option.splits)
  qed
qed



lemma distinct_singleton:
  assumes "distinct xs" "set xs = {k}"
  shows "xs = [k]"
proof (cases xs)
  case Nil
  then show ?thesis using assms(2) by simp
next
  case (Cons a ys)
  then have a: "a = k" using assms(2) by auto
  have "set ys \<subseteq> {k}" using assms(2) Cons by auto
  moreover have "k \<notin> set ys" using assms(1) Cons a by simp
  ultimately have "ys = []" by (cases ys) auto
  then show ?thesis using Cons a by simp
qed

lemma base_of_member:
  assumes "share" "k < length (groups g)" "i \<in> set (groups g ! k)"
    and "\<forall>k' < length (groups g). k' \<noteq> k \<longrightarrow> i \<notin> set (groups g ! k')"
  shows "base_of_panel share g i = Some (groups_base g ! k)"
proof -
  let ?ig = "filter (\<lambda>k. i \<in> set (groups g ! k)) [0..<length (groups g)]"
  have "distinct ?ig" by simp
  moreover have "set ?ig = {k}" using assms(2,3,4) by auto
  ultimately have "?ig = [k]" by (rule distinct_singleton)
  then show ?thesis using assms(1) by (simp add: base_of_panel_def)
qed

lemma base_of_nonmember:
  assumes "\<forall>k < length (groups g). i \<notin> set (groups g ! k)"
  shows "base_of_panel share g i = None"
proof -
  have "filter (\<lambda>k. i \<in> set (groups g ! k)) [0..<length (groups g)] = []"
    using assms by (simp add: filter_empty_conv)
  then show ?thesis by (simp add: base_of_panel_def)
qed

lemma xgrouper_wf:
  assumes "length xr = n"
  shows "wf_grouping n (xgrouper shx n xr yr)"
  unfolding wf_grouping_def
proof (intro conjI ballI)
  let ?X = "xgrouper shx n xr yr"
  show l: "length (groups_base ?X) = length (groups ?X)" by (rule xgrouper_spec(1)[OF assms])
  fix b assume "b \<in> set (groups_base ?X)"
  then obtain k where k: "k < length (groups_base ?X)" "b = groups_base ?X ! k"
    by (auto simp: in_set_conv_nth)
  then have "x_group_spec xr yr (groups ?X ! k) b (groups_sorted ?X ! k)"
    using xgrouper_spec(3)[OF assms, of k shx yr] l by simp
  then obtain i where "b \<in> set (matching_axes xr i)"
    unfolding x_group_spec_def is_first_max_def by auto
  then show "b < n" using assms by (simp add: set_matching_axes)
qed

lemma ygrouper_wf:
  assumes "length yr = n"
  shows "wf_grouping n (ygrouper shy n xr yr)"
  unfolding wf_grouping_def
proof (intro conjI ballI)
  let ?Y = "ygrouper shy n xr yr"
  show l: "length (groups_base ?Y) = length (groups ?Y)" by (rule ygrouper_spec(1)[OF assms])
  fix b assume "b \<in> set (groups_base ?Y)"
  then obtain k where k: "k < length (groups_base ?Y)" "b = groups_base ?Y ! k"
    by (auto simp: in_set_conv_nth)
  then have "y_group_spec xr yr (groups ?Y ! k) b (groups_sorted ?Y ! k)"
    using ygrouper_spec(3)[OF assms, of k shy xr] l by simp
  then obtain i where "b \<in> set (matching_axes yr i)"
    unfolding y_group_spec_def is_first_min_def by auto
  then show "b < n" using assms by (simp add: set_matching_axes)
qed

lemma xgrouper_enabled: "k < length (groups (xgrouper shx n xr yr)) \<Longrightarrow> shx"
  by (cases shx) (simp_all add: xgrouper_def no_groups_def)

lemma ygrouper_enabled: "k < length (groups (ygrouper shy n xr yr)) \<Longrightarrow> shy"
  by (cases shy) (simp_all add: ygrouper_def no_groups_def)

lemma draw_axes_violation:
  assumes "wf_grouping n (xg L)" "wf_grouping n (yg L)" "length (axs fig) = n" "i < n"
  shows "draw_axes L i fig = Inl OrderingViolation \<longleftrightarrow>
           (\<exists>b. (base_of_panel (sharex L) (xg L) i = Some b \<or>
                 base_of_panel (sharey L) (yg L) i = Some b) \<and> axs fig ! b = None)"
  using assms(3,4)
  by (auto simp: draw_axes_def share_ax_eq[OF assms(1,3)] share_ax_eq[OF assms(2,3)]
           split: option.splits)



lemma created_panels_append: "created_panels (xs @ ys) = created_panels xs @ created_panels ys"
  by (simp add: created_panels_def)

lemma created_panels_step:
  "created_panels (step_calls L fig i) = (if axs fig ! i = None then [i] else [])"
  by (auto simp: created_panels_def step_calls_def adopt_calls_def split: option.splits)

lemma created_panels_concat:
  "created_panels (concat (map (step_calls L fig) xs)) = filter (\<lambda>i. axs fig ! i = None) xs"
  by (induction xs) (simp_all add: created_panels_append created_panels_step, simp add: created_panels_def)

lemma sources_unshared: "sources (unshared L i) = []"
  by (simp add: sources_def unshared_def)

lemma sources_step:
  assumes "c \<in> set (step_calls L fig i)" "h \<in> set (sources c)"
  shows "source_of (sharex L) (xg L) fig i = Some h \<or> source_of (sharey L) (yg L) fig i = Some h"
  using assms
  by (auto simp: step_calls_def adopt_calls_def sources_def split: option.splits if_splits)

lemma adopt_x:
  assumes "axs fig ! i = Some h" "source_of (sharex L) (xg L) fig i = Some b" "h \<noteq> b"
  shows "Sharex_setup h b \<in> set (step_calls L fig i)"
  using assms by (simp add: step_calls_def adopt_calls_def)

lemma adopt_y:
  assumes "axs fig ! i = Some h" "source_of (sharey L) (yg L) fig i = Some b" "h \<noteq> b"
  shows "Sharey_setup h b \<in> set (step_calls L fig i)"
  using assms by (simp add: step_calls_def adopt_calls_def)

text \<open>
  Claim C2. In a valid canonical arrangement with \<open>n\<close> panels, with or without sharing, the
  two passes return a figure and never the ordering error. The first pass makes one creating
  call per base (the bases of the x groups, then of the y groups, each panel once), none with
  a shared axes, and stores the axes of the \<open>p\<close>-th call for the \<open>p\<close>-th base; no other panel
  is drawn then. The second pass appends, for the panels in the order of their numbers, the
  calls of \<open>step_calls\<close>: over both passes every panel is created exactly once, the bases
  first and then the remaining panels by number; at the end every panel is drawn and every
  base keeps the axes of the first pass. A member of a group has the base of that group as
  its base, and that base was drawn in the first pass; a panel in no group has none. A base
  whose group on the x (y) axis has another panel as base gets the call
  \<^verbatim>\<open>_sharex_setup\<close> (\<^verbatim>\<open>_sharey_setup\<close>) on the axes it has, with the axes of that other
  base. Every axes passed as a shared axes, in any call, was created in the first pass. The
  body of the second loop returns the ordering error exactly when the base of the panel on
  one of the two axes has no axes yet.
\<close>

theorem draw_two_passes:
  assumes "enforce_rule a = Inr n" and "L = layout_of a n ro co shx shy wp"
  shows "\<exists>fig1 fig bases.
     first_pass L = Inr fig1 \<and> draw L = Inr fig \<and>
     calls fig1 = map (unshared L) bases \<and> distinct bases \<and>
     set bases = set (allgroups_base L) \<and>
     (\<forall>p < length bases. axs fig1 ! (bases ! p) = Some (Axes p)) \<and>
     (\<forall>i < n. i \<notin> set bases \<longrightarrow> axs fig1 ! i = None) \<and>
     calls fig = calls fig1 @ concat (map (step_calls L fig1) [0..<n]) \<and>
     created_panels (calls fig) = bases @ filter (\<lambda>i. i \<notin> set bases) [0..<n] \<and>
     length (axs fig) = n \<and> (\<forall>i < n. axs fig ! i \<noteq> None) \<and>
     (\<forall>b \<in> set bases. axs fig ! b = axs fig1 ! b) \<and>
     (\<forall>k < length (groups (xg L)). \<forall>i \<in> set (groups (xg L) ! k).
        groups_base (xg L) ! k \<in> set bases \<and>
        base_of_panel shx (xg L) i = Some (groups_base (xg L) ! k)) \<and>
     (\<forall>k < length (groups (yg L)). \<forall>i \<in> set (groups (yg L) ! k).
        groups_base (yg L) ! k \<in> set bases \<and>
        base_of_panel shy (yg L) i = Some (groups_base (yg L) ! k)) \<and>
     (\<forall>i. (\<forall>k < length (groups (xg L)). i \<notin> set (groups (xg L) ! k)) \<longrightarrow>
        base_of_panel shx (xg L) i = None) \<and>
     (\<forall>i. (\<forall>k < length (groups (yg L)). i \<notin> set (groups (yg L) ! k)) \<longrightarrow>
        base_of_panel shy (yg L) i = None) \<and>
     (\<forall>p < length bases. \<forall>q < length bases.
        p \<noteq> q \<and> base_of_panel shx (xg L) (bases ! p) = Some (bases ! q) \<longrightarrow>
        Sharex_setup (Axes p) (Axes q) \<in> set (calls fig)) \<and>
     (\<forall>p < length bases. \<forall>q < length bases.
        p \<noteq> q \<and> base_of_panel shy (yg L) (bases ! p) = Some (bases ! q) \<longrightarrow>
        Sharey_setup (Axes p) (Axes q) \<in> set (calls fig)) \<and>
     (\<forall>c \<in> set (calls fig). \<forall>h \<in> set (sources c). \<exists>p < length bases. h = Axes p) \<and>
     (\<forall>i < n. \<forall>fig'. length (axs fig') = n \<longrightarrow>
        (draw_axes L i fig' = Inl OrderingViolation \<longleftrightarrow>
           (\<exists>b. (base_of_panel shx (xg L) i = Some b \<or> base_of_panel shy (yg L) i = Some b) \<and>
                axs fig' ! b = None)))"
proof -
  have lx: "length (xrange a co) = n" and ly: "length (yrange a ro) = n"
    using extent_tables_length[OF assms(1)] by simp_all
  have L: "sharex L = shx" "sharey L = shy" "num_axes L = n"
    "xg L = xgrouper shx n (xrange a co) (yrange a ro)"
    "yg L = ygrouper shy n (xrange a co) (yrange a ro)"
    by (simp_all add: assms(2) layout_of_def)
  have wx: "wf_grouping n (xg L)" unfolding L by (rule xgrouper_wf[OF lx])
  have wy: "wf_grouping n (yg L)" unfolding L by (rule ygrouper_wf[OF ly])
  from first_pass_ok[of L] wx wy obtain fig1 bases where f:
    "first_pass L = Inr fig1" "length (axs fig1) = n"
    "calls fig1 = map (unshared L) bases" "distinct bases" "set bases = set (allgroups_base L)"
    "fig_inv fig1"
    "\<forall>p < length bases. axs fig1 ! (bases ! p) = Some (Axes p)"
    "\<forall>i < n. i \<notin> set bases \<longrightarrow> axs fig1 ! i = None"
    unfolding L by blast
  have hnd: "\<exists>p < length bases. b = bases ! p \<and> axs fig1 ! b = Some (Axes p)"
    if "b \<in> set bases" for b
    using that f(7) by (auto simp: in_set_conv_nth)
  have bn: "b < n" if "b \<in> set bases" for b
    using that wx wy unfolding f(5) by (auto simp: allgroups_base_def wf_grouping_def split: if_splits)
  have drawn: "\<forall>b \<in> set (allgroups_base L). axs fig1 ! b \<noteq> None"
    using hnd unfolding f(5)[symmetric] by fastforce
  from second_pass_loop[OF wx wy drawn f(2) le_refl] obtain fig where g:
    "draw_dependents L [0..<n] fig1 = Inr fig"
    "calls fig = calls fig1 @ concat (map (step_calls L fig1) [0..<n])"
    "length (axs fig) = n"
    "\<forall>i < n. axs fig1 ! i \<noteq> None \<longrightarrow> axs fig ! i = axs fig1 ! i"
    "\<forall>i < n. axs fig ! i \<noteq> None"
    by blast
  have d: "draw L = Inr fig" by (simp add: draw_def f(1) L(3) g(1))
  have undrawn: "(axs fig1 ! i = None) = (i \<notin> set bases)" if "i < n" for i
    using that f(8) hnd[of i] by auto
  have cp: "created_panels (calls fig) = bases @ filter (\<lambda>i. i \<notin> set bases) [0..<n]"
  proof -
    have "filter (\<lambda>i. axs fig1 ! i = None) [0..<n] = filter (\<lambda>i. i \<notin> set bases) [0..<n]"
      by (rule filter_cong) (simp_all add: undrawn)
    then show ?thesis
      by (simp add: g(2) f(3) created_panels_append created_panels_unshared created_panels_concat)
  qed
  have keep: "\<forall>b \<in> set bases. axs fig ! b = axs fig1 ! b"
  proof
    fix b assume b: "b \<in> set bases"
    then have "axs fig1 ! b \<noteq> None" using hnd by fastforce
    then show "axs fig ! b = axs fig1 ! b" using g(4) bn[OF b] by simp
  qed
  have xmem: "\<forall>k < length (groups (xg L)). \<forall>i \<in> set (groups (xg L) ! k).
        groups_base (xg L) ! k \<in> set bases \<and>
        base_of_panel shx (xg L) i = Some (groups_base (xg L) ! k)"
  proof (intro allI impI ballI)
    fix k i assume k: "k < length (groups (xg L))" and i: "i \<in> set (groups (xg L) ! k)"
    have sh: shx using k unfolding L by (rule xgrouper_enabled)
    have "groups_base (xg L) ! k \<in> set (groups_base (xg L))"
      using k wx by (simp add: wf_grouping_def)
    then have b: "groups_base (xg L) ! k \<in> set bases"
      unfolding f(5) using sh by (simp add: allgroups_base_def L(1))
    have "\<forall>k' < length (groups (xg L)). k' \<noteq> k \<longrightarrow> i \<notin> set (groups (xg L) ! k')"
      using xgroups_disjoint[OF lx, of _ shx "yrange a ro" k] k i unfolding L by blast
    then have "base_of_panel shx (xg L) i = Some (groups_base (xg L) ! k)"
      by (rule base_of_member[OF sh k i])
    with b show "groups_base (xg L) ! k \<in> set bases \<and>
        base_of_panel shx (xg L) i = Some (groups_base (xg L) ! k)" by simp
  qed
  have ymem: "\<forall>k < length (groups (yg L)). \<forall>i \<in> set (groups (yg L) ! k).
        groups_base (yg L) ! k \<in> set bases \<and>
        base_of_panel shy (yg L) i = Some (groups_base (yg L) ! k)"
  proof (intro allI impI ballI)
    fix k i assume k: "k < length (groups (yg L))" and i: "i \<in> set (groups (yg L) ! k)"
    have sh: shy using k unfolding L by (rule ygrouper_enabled)
    have "groups_base (yg L) ! k \<in> set (groups_base (yg L))"
      using k wy by (simp add: wf_grouping_def)
    then have b: "groups_base (yg L) ! k \<in> set bases"
      unfolding f(5) using sh by (simp add: allgroups_base_def L(2))
    have "\<forall>k' < length (groups (yg L)). k' \<noteq> k \<longrightarrow> i \<notin> set (groups (yg L) ! k')"
      using ygroups_disjoint[OF ly, of _ shy "xrange a co" k] k i unfolding L by blast
    then have "base_of_panel shy (yg L) i = Some (groups_base (yg L) ! k)"
      by (rule base_of_member[OF sh k i])
    with b show "groups_base (yg L) ! k \<in> set bases \<and>
        base_of_panel shy (yg L) i = Some (groups_base (yg L) ! k)" by simp
  qed
  have xnon: "\<forall>i. (\<forall>k < length (groups (xg L)). i \<notin> set (groups (xg L) ! k)) \<longrightarrow>
        base_of_panel shx (xg L) i = None"
    using base_of_nonmember by blast
  have ynon: "\<forall>i. (\<forall>k < length (groups (yg L)). i \<notin> set (groups (yg L) ! k)) \<longrightarrow>
        base_of_panel shy (yg L) i = None"
    using base_of_nonmember by blast
  have step_in: "set (step_calls L fig1 i) \<subseteq> set (calls fig)" if "i < n" for i
    using that by (auto simp: g(2))
  have xadopt: "\<forall>p < length bases. \<forall>q < length bases.
        p \<noteq> q \<and> base_of_panel shx (xg L) (bases ! p) = Some (bases ! q) \<longrightarrow>
        Sharex_setup (Axes p) (Axes q) \<in> set (calls fig)"
  proof (intro allI impI)
    fix p q assume p: "p < length bases" and q: "q < length bases"
      and h: "p \<noteq> q \<and> base_of_panel shx (xg L) (bases ! p) = Some (bases ! q)"
    have "axs fig1 ! (bases ! p) = Some (Axes p)" using f(7) p by simp
    moreover have "source_of (sharex L) (xg L) fig1 (bases ! p) = Some (Axes q)"
      using h f(7) q by (simp add: source_of_def L(1))
    moreover have "Axes p \<noteq> Axes q" using h by simp
    ultimately have "Sharex_setup (Axes p) (Axes q) \<in> set (step_calls L fig1 (bases ! p))"
      by (rule adopt_x)
    then show "Sharex_setup (Axes p) (Axes q) \<in> set (calls fig)"
      using step_in[of "bases ! p"] bn[of "bases ! p"] p by auto
  qed
  have yadopt: "\<forall>p < length bases. \<forall>q < length bases.
        p \<noteq> q \<and> base_of_panel shy (yg L) (bases ! p) = Some (bases ! q) \<longrightarrow>
        Sharey_setup (Axes p) (Axes q) \<in> set (calls fig)"
  proof (intro allI impI)
    fix p q assume p: "p < length bases" and q: "q < length bases"
      and h: "p \<noteq> q \<and> base_of_panel shy (yg L) (bases ! p) = Some (bases ! q)"
    have "axs fig1 ! (bases ! p) = Some (Axes p)" using f(7) p by simp
    moreover have "source_of (sharey L) (yg L) fig1 (bases ! p) = Some (Axes q)"
      using h f(7) q by (simp add: source_of_def L(2))
    moreover have "Axes p \<noteq> Axes q" using h by simp
    ultimately have "Sharey_setup (Axes p) (Axes q) \<in> set (step_calls L fig1 (bases ! p))"
      by (rule adopt_y)
    then show "Sharey_setup (Axes p) (Axes q) \<in> set (calls fig)"
      using step_in[of "bases ! p"] bn[of "bases ! p"] p by auto
  qed
  have src_handle: "\<exists>p < length bases. h = Axes p"
    if "source_of share g fig1 i = Some h" "wf_grouping n g"
      "share \<Longrightarrow> set (groups_base g) \<subseteq> set bases" for share g i h
  proof -
    from that(1) obtain b where b: "base_of_panel share g i = Some b" "axs fig1 ! b = Some h"
      by (auto simp: source_of_def split: option.splits)
    have "b \<in> set bases" using base_of_panel_bound(1,3)[OF that(2) b(1)] that(3) by blast
    then show ?thesis using hnd[of b] b(2) by auto
  qed
  have srcs: "\<forall>c \<in> set (calls fig). \<forall>h \<in> set (sources c). \<exists>p < length bases. h = Axes p"
  proof (intro ballI)
    fix c h assume c: "c \<in> set (calls fig)" and h: "h \<in> set (sources c)"
    from c consider "c \<in> set (calls fig1)" | i where "i < n" "c \<in> set (step_calls L fig1 i)"
      by (auto simp: g(2))
    then show "\<exists>p < length bases. h = Axes p"
    proof cases
      case 1
      then show ?thesis using h by (auto simp: f(3) sources_unshared)
    next
      case 2
      from sources_step[OF 2(2) h] show ?thesis
      proof
        assume "source_of (sharex L) (xg L) fig1 i = Some h"
        then show ?thesis
          by (rule src_handle[OF _ wx]) (simp add: f(5) allgroups_base_def)
      next
        assume "source_of (sharey L) (yg L) fig1 i = Some h"
        then show ?thesis
          by (rule src_handle[OF _ wy]) (simp add: f(5) allgroups_base_def)
      qed
    qed
  qed
  have viol: "\<forall>i < n. \<forall>fig'. length (axs fig') = n \<longrightarrow>
        (draw_axes L i fig' = Inl OrderingViolation \<longleftrightarrow>
           (\<exists>b. (base_of_panel shx (xg L) i = Some b \<or> base_of_panel shy (yg L) i = Some b) \<and>
                axs fig' ! b = None))"
    using draw_axes_violation[OF wx wy] unfolding L(1,2) by blast
  show ?thesis
    apply (rule exI[of _ fig1], rule exI[of _ fig], rule exI[of _ bases])
    apply (intro conjI)
    apply (rule f(1)) apply (rule d) apply (rule f(3)) apply (rule f(4)) apply (rule f(5))
    apply (rule f(7)) apply (rule f(8)) apply (rule g(2)) apply (rule cp) apply (rule g(3))
    apply (rule g(5)) apply (rule keep) apply (rule xmem) apply (rule ymem) apply (rule xnon)
    apply (rule ynon) apply (rule xadopt) apply (rule yadopt) apply (rule srcs) apply (rule viol)
    done
qed

theorem draw_two_passes_witness:
  "enforce_rule [[1, 2, 3], [4, 4, 5]] = Inr 5 \<and>
   (\<exists>fig1 fig.
      first_pass (layout_of [[1, 2, 3], [4, 4, 5]] 5 0 0 True True (\<lambda>i. False)) = Inr fig1 \<and>
      draw (layout_of [[1, 2, 3], [4, 4, 5]] 5 0 0 True True (\<lambda>i. False)) = Inr fig \<and>
      created_panels (calls fig1) = [4, 0, 3] \<and>
      axs fig1 = [Some (Axes 1), None, None, Some (Axes 2), Some (Axes 0)] \<and>
      created_panels (calls fig) = [4, 0, 3, 1, 2] \<and>
      Sharey_setup (Axes 0) (Axes 2) \<in> set (calls fig))"
proof -
  let ?a = "[[1, 2, 3], [4, 4, 5 :: int]]"
  let ?L = "layout_of ?a 5 0 0 True True (\<lambda>i. False)"
  have e: "enforce_rule ?a = Inr 5" by code_simp
  have fp: "first_pass ?L =
      Inr \<lparr>axs = [Some (Axes 1), None, None, Some (Axes 2), Some (Axes 0)],
           calls = [Create Add_subplot (1, 2) (2, 3) 5 None None,
                    Create Add_subplot (0, 1) (0, 1) 1 None None,
                    Create Add_subplot (1, 2) (0, 2) 4 None None]\<rparr>"
    by code_simp
  have yb: "base_of_panel True (yg ?L) 4 = Some 3" by code_simp
  from draw_two_passes[OF e refl, of 0 0 True True "\<lambda>i. False"]
  obtain fig1 fig bases where t:
    "first_pass ?L = Inr fig1" "draw ?L = Inr fig"
    "calls fig1 = map (unshared ?L) bases"
    "created_panels (calls fig) = bases @ filter (\<lambda>i. i \<notin> set bases) [0..<5]"
    "\<forall>p < length bases. \<forall>q < length bases.
        p \<noteq> q \<and> base_of_panel True (yg ?L) (bases ! p) = Some (bases ! q) \<longrightarrow>
        Sharey_setup (Axes p) (Axes q) \<in> set (calls fig)"
    by (elim exE conjE) (rule that; assumption)
  from t(1) fp have f1: "fig1 = \<lparr>axs = [Some (Axes 1), None, None, Some (Axes 2), Some (Axes 0)],
           calls = [Create Add_subplot (1, 2) (2, 3) 5 None None,
                    Create Add_subplot (0, 1) (0, 1) 1 None None,
                    Create Add_subplot (1, 2) (0, 2) 4 None None]\<rparr>" by simp
  have "created_panels (calls fig1) = bases" by (simp only: t(3) created_panels_unshared)
  moreover have c1: "created_panels (calls fig1) = [4, 0, 3]" by (simp add: f1 created_panels_def)
  ultimately have b: "bases = [4, 0, 3]" by simp
  have c: "created_panels (calls fig) = [4, 0, 3, 1, 2]" unfolding t(4) b by code_simp
  have s: "Sharey_setup (Axes 0) (Axes 2) \<in> set (calls fig)"
    using t(5)[rule_format, of 0 2] yb by (simp add: b)
  show ?thesis using e t(1,2) c1 c s f1 by simp
qed

section \<open>The groups of a drawn figure\<close>



end
